theory Spec2Isabelle
  imports Complex_Main
begin

section \<open>JavaScript primitives used by \<open>GGRC.Math\<close>\<close>

text \<open>
  Strings are lists of code units below 256. A JavaScript number that occurs in the
  digit loops is either a natural number or \<open>NaN\<close>; \<open>None\<close> stands for \<open>NaN\<close>.
\<close>

type_synonym number = "nat option"

definition is_digit :: "char \<Rightarrow> bool" where
  "is_digit c = (48 \<le> (of_char c :: nat) \<and> (of_char c :: nat) \<le> 57)"

definition digit_of :: "char \<Rightarrow> nat" where
  "digit_of c = (of_char c :: nat) - 48"

definition digit_char :: "nat \<Rightarrow> char" where
  "digit_char d = char_of (48 + d)"

definition is_space :: "char \<Rightarrow> bool" where
  "is_space c = ((of_char c :: nat) \<in> {9, 10, 11, 12, 13, 32, 160})"

text \<open>Unary plus on a one-character string: a digit is its value, white space is 0,
  anything else is \<open>NaN\<close>.\<close>

definition to_number :: "char \<Rightarrow> number" where
  "to_number c = (if is_digit c then Some (digit_of c)
                  else if is_space c then Some 0 else None)"

text \<open>\<open>s[i]\<close>: \<open>None\<close> is \<open>undefined\<close>.\<close>

definition char_at :: "string \<Rightarrow> nat \<Rightarrow> char option" where
  "char_at s i = (if i < length s then Some (s ! i) else None)"

text \<open>\<open>s.indexOf(c)\<close>: \<open>None\<close> is the result -1.\<close>

definition index_of :: "char \<Rightarrow> string \<Rightarrow> nat option" where
  "index_of c s = (if c \<in> set s then Some (length (takeWhile (\<lambda>x. x \<noteq> c) s)) else None)"

text \<open>\<open>n.toString(10)\<close> on a natural number, and on a number that may be \<open>NaN\<close>.\<close>

fun show_nat :: "nat \<Rightarrow> string" where
  "show_nat n = (if n < 10 then [digit_char n]
                 else show_nat (n div 10) @ [digit_char (n mod 10)])"

declare show_nat.simps [simp del]

definition to_string :: "number \<Rightarrow> string" where
  "to_string x = (case x of None \<Rightarrow> ''NaN'' | Some n \<Rightarrow> show_nat n)"

text \<open>\<open>x + y\<close>, \<open>Math.floor(x / 10)\<close>, \<open>x % 10\<close> and \<open>x > 0\<close> on such numbers.\<close>

definition num_plus :: "number \<Rightarrow> number \<Rightarrow> number" where
  "num_plus x y = (case x of None \<Rightarrow> None
                   | Some m \<Rightarrow> (case y of None \<Rightarrow> None | Some n \<Rightarrow> Some (m + n)))"

definition num_div :: "number \<Rightarrow> nat \<Rightarrow> number" where
  "num_div x k = map_option (\<lambda>n. n div k) x"

definition num_mod :: "number \<Rightarrow> nat \<Rightarrow> number" where
  "num_mod x k = map_option (\<lambda>n. n mod k) x"

definition num_pos :: "number \<Rightarrow> bool" where
  "num_pos x = (case x of None \<Rightarrow> False | Some n \<Rightarrow> 0 < n)"

text \<open>\<open>+(s[i] || 0)\<close>: an absent character is replaced by the number 0 before the
  coercion.\<close>

definition plus_or_zero :: "char option \<Rightarrow> number" where
  "plus_or_zero x = (case x of None \<Rightarrow> Some 0 | Some c \<Rightarrow> to_number c)"

text \<open>\<open>(+s[i] || 0)\<close>: the coercion comes first, and \<open>NaN\<close> is replaced by 0.\<close>

definition number_or_zero :: "char option \<Rightarrow> nat" where
  "number_or_zero x = (case x of None \<Rightarrow> 0
                       | Some c \<Rightarrow> (case to_number c of None \<Rightarrow> 0 | Some n \<Rightarrow> n))"

text \<open>\<open>ret.pop()\<close> guarded by \<open>ret[ret.length - 1] === "."\<close>.\<close>

definition pop_point :: "string list \<Rightarrow> string list" where
  "pop_point ret = (if ret \<noteq> [] \<and> last ret = ''.'' then butlast ret else ret)"

text \<open>The prologue shared by \<open>string_add\<close> and \<open>string_less_than\<close>: append a
  decimal point to a string that has none, and return the string with the index of
  its point.\<close>

definition with_point :: "string \<Rightarrow> string \<times> nat" where
  "with_point a = (case index_of CHR ''.'' a of
                     None \<Rightarrow> (a @ ''.'', length a)
                   | Some i \<Rightarrow> (a, i))"

section \<open>\<open>GGRC.Math.string_add\<close>\<close>

datatype error = Decimal_alignment_error

text \<open>\<open>while (adi < bdi) { a = "0" + a; adi++; }\<close>\<close>

function pad_left :: "string \<Rightarrow> nat \<Rightarrow> nat \<Rightarrow> string \<times> nat" where
  "pad_left a adi bdi =
     (if adi < bdi then pad_left (CHR ''0'' # a) (Suc adi) bdi else (a, adi))"
  by pat_completeness auto
termination
  by (relation "measure (\<lambda>(a, adi, bdi). bdi - adi)") auto

declare pad_left.simps [simp del]

text \<open>The digit loop \<open>for (i = n - 1; i >= 0; i--)\<close>; the argument \<open>Suc i\<close> is the
  number of positions still to visit, \<open>i\<close> the position visited.\<close>

fun add_loop ::
  "string \<Rightarrow> string \<Rightarrow> nat \<Rightarrow> number \<Rightarrow> string list \<Rightarrow> error + (number \<times> string list)"
where
  "add_loop a b 0 c ret = Inr (c, ret)"
| "add_loop a b (Suc i) c ret =
     (let xa = char_at a i; xb = char_at b i in
      if xa = Some CHR ''.'' \<or> xb = Some CHR ''.'' then
        (if xa \<noteq> Some CHR ''.'' \<or> xb \<noteq> Some CHR ''.'' then Inl Decimal_alignment_error
         else add_loop a b i c (''.'' # ret))
      else
        (let s = num_plus (num_plus (plus_or_zero xa) (plus_or_zero xb)) c
         in add_loop a b i (num_div s 10) (to_string (num_mod s 10) # ret)))"

definition align :: "string \<Rightarrow> string \<Rightarrow> string \<times> string" where
  "align a b =
     (let (a1, adi1) = with_point a;
          (b1, bdi1) = with_point b;
          (a2, adi2) = pad_left a1 adi1 bdi1;
          (b2, bdi2) = pad_left b1 bdi1 adi2
      in (a2, b2))"

definition string_add :: "string \<Rightarrow> string \<Rightarrow> error + string" where
  "string_add a b =
     (let (a2, b2) = align a b in
      case add_loop a2 b2 (max (length a2) (length b2)) (Some 0) [] of
        Inl e \<Rightarrow> Inl e
      | Inr (c, ret) \<Rightarrow>
          Inr (concat (pop_point (if num_pos c then to_string c # ret else ret))))"

section \<open>\<open>GGRC.Math.string_half\<close>\<close>

text \<open>The loop \<open>for (i = 0; i < a.length; i++)\<close>; the string argument is the part
  of \<open>a\<close> from position \<open>i\<close> on. The carry is 0 or 10.\<close>

fun half_loop :: "string \<Rightarrow> nat \<Rightarrow> string list \<Rightarrow> nat \<times> string list" where
  "half_loop [] c ret = (c, ret)"
| "half_loop (x # xs) c ret =
     (if x = CHR ''.'' then half_loop xs c (ret @ [''.''])
      else half_loop xs
             (if num_pos (num_mod (to_number x) 2) then 10 else 0)
             (ret @ [to_string (num_div (num_plus (to_number x) (Some c)) 2)]))"

text \<open>\<open>while (ret[0] === "0" && ret.length > 1) ret.shift();\<close>\<close>

fun shift_zeros :: "string list \<Rightarrow> string list" where
  "shift_zeros (x # y # ys) = (if x = ''0'' then shift_zeros (y # ys) else x # y # ys)"
| "shift_zeros ret = ret"

definition string_half :: "string \<Rightarrow> string" where
  "string_half a =
     (let a1 = (if index_of CHR ''.'' a = None then a @ ''.'' else a);
          (c, ret) = half_loop a1 0 []
      in concat (shift_zeros (pop_point (if 0 < c then ret @ [''5''] else ret))))"

section \<open>\<open>GGRC.Math.string_less_than\<close>\<close>

text \<open>The loop \<open>for (i = 0; i < _a.length - 1; i++)\<close> together with the return
  statement that follows it.\<close>

function less_than_loop :: "string \<Rightarrow> string \<Rightarrow> nat \<Rightarrow> bool" where
  "less_than_loop a b i =
     (if i < length a - 1 then
        (if a ! i = CHR ''.'' then less_than_loop a b (Suc i)
         else if number_or_zero (char_at a i) < number_or_zero (char_at b i) then True
         else if number_or_zero (char_at a i) > number_or_zero (char_at b i) then False
         else less_than_loop a b (Suc i))
      else (if length b \<ge> length a then False else True))"
  by pat_completeness auto
termination
  by (relation "measure (\<lambda>(a, b, i). length a - 1 - i)") auto

declare less_than_loop.simps [simp del]

definition string_less_than :: "string \<Rightarrow> string \<Rightarrow> bool" where
  "string_less_than a b =
     (let (a1, adi) = with_point (dropWhile (\<lambda>c. c = CHR ''0'') a);
          (b1, bdi) = with_point (dropWhile (\<lambda>c. c = CHR ''0'') b)
      in if adi < bdi then True
         else if bdi < adi then False
         else less_than_loop a1 b1 0)"

section \<open>Decimal strings and their values\<close>

text \<open>A well-formed decimal string: digits with at most one decimal point.\<close>

definition wf_decimal :: "string \<Rightarrow> bool" where
  "wf_decimal s = ((\<forall>c \<in> set s. is_digit c \<or> c = CHR ''.'') \<and> count_list s CHR ''.'' \<le> 1)"

definition digits_val :: "string \<Rightarrow> nat" where
  "digits_val s = foldl (\<lambda>n c. 10 * n + digit_of c) 0 s"

definition digits :: "string \<Rightarrow> string" where
  "digits s = filter (\<lambda>c. c \<noteq> CHR ''.'') s"

definition frac_len :: "string \<Rightarrow> nat" where
  "frac_len s = length (drop 1 (dropWhile (\<lambda>c. c \<noteq> CHR ''.'') s))"

text \<open>The number a decimal string denotes: its digits read as one natural number,
  scaled by the number of digits after the point.\<close>

definition dec_value :: "string \<Rightarrow> rat" where
  "dec_value s = of_nat (digits_val (digits s)) / 10 ^ frac_len s"

text \<open>The string has a decimal point at position \<open>i\<close>.\<close>

definition point_at :: "string \<Rightarrow> nat \<Rightarrow> bool" where
  "point_at s i = (char_at s i = Some CHR ''.'')"

text \<open>Two characters at the same position of two aligned operands: both are the
  point, or both are digits.\<close>

definition aligned :: "char \<Rightarrow> char \<Rightarrow> bool" where
  "aligned x y = (if x = CHR ''.'' then y = CHR ''.'' else is_digit x \<and> is_digit y)"

text \<open>The least significant digit of the string is odd.\<close>

definition odd_last :: "string \<Rightarrow> bool" where
  "odd_last a = (digits a \<noteq> [] \<and> odd (digit_of (last (digits a))))"

section \<open>The event queue of \<open>GGRC\<close>\<close>

text \<open>
  A queued function is an opaque callback: the model keeps its name and whether calling
  it throws. Calling it is recorded in \<open>executed\<close>. \<open>timers\<close> and \<open>handles\<close> are the
  host's side of \<open>setTimeout\<close>: the pending timeouts (handle and delay, oldest first),
  each of which will call \<open>queue_exec_next\<close>, and the number of handles given out so
  far. A handle is a positive integer.
\<close>

datatype 'f operation = Operation (name: 'f) (throws: bool)

datatype 'f events = Function "'f operation" | Array "'f operation list"

record 'f ggrc =
  eventqueue :: "'f operation list"
  eventqueueTimeout :: "nat option"
  timers :: "(nat \<times> nat) list"
  handles :: nat
  executed :: "'f list"

text \<open>A call returns, or an exception leaves it; either way the state it has written
  so far stays.\<close>

datatype 's outcome = Normal 's | Uncaught 's

fun state_of :: "'s outcome \<Rightarrow> 's" where
  "state_of (Normal s) = s"
| "state_of (Uncaught s) = s"

definition eventqueueTimegap :: nat where
  "eventqueueTimegap = 20"

definition initial :: "'f ggrc" where
  "initial = \<lparr>eventqueue = [], eventqueueTimeout = None, timers = [], handles = 0,
              executed = []\<rparr>"

text \<open>\<open>GGRC.eventqueueTimeout = setTimeout(GGRC.queue_exec_next, delay)\<close>\<close>

definition set_timeout :: "nat \<Rightarrow> 'f ggrc \<Rightarrow> 'f ggrc" where
  "set_timeout delay s =
     (let h = Suc (handles s)
      in s\<lparr>eventqueueTimeout := Some h, timers := timers s @ [(h, delay)], handles := h\<rparr>)"

text \<open>\<open>!GGRC.eventqueueTimeout\<close>: true of \<open>null\<close> and of 0.\<close>

definition falsy :: "nat option \<Rightarrow> bool" where
  "falsy t = (t = None \<or> t = Some 0)"

text \<open>
  \<open>queue_exec_next\<close>. On an empty queue \<open>shift\<close> gives \<open>undefined\<close>, nothing is
  called and the handle is reset. Otherwise the head is removed and called; there is
  no \<open>try\<close> around the call, so when it throws the exception leaves
  \<open>queue_exec_next\<close> before either assignment to \<open>eventqueueTimeout\<close>.
\<close>

definition queue_exec_next :: "'f ggrc \<Rightarrow> 'f ggrc outcome" where
  "queue_exec_next s =
     (case eventqueue s of
        [] \<Rightarrow> Normal (s\<lparr>eventqueueTimeout := None\<rparr>)
      | fn # rest \<Rightarrow>
          (let s1 = s\<lparr>eventqueue := rest, executed := executed s @ [name fn]\<rparr>
           in if throws fn then Uncaught s1
              else if length (eventqueue s1) > 0 then Normal (set_timeout eventqueueTimegap s1)
              else Normal (s1\<lparr>eventqueueTimeout := None\<rparr>)))"

definition queue_event :: "'f events \<Rightarrow> 'f ggrc \<Rightarrow> 'f ggrc" where
  "queue_event events s =
     (let evs = (case events of Function f \<Rightarrow> [f] | Array fs \<Rightarrow> fs);
          s1 = s\<lparr>eventqueue := eventqueue s @ evs\<rparr>
      in if falsy (eventqueueTimeout s1) then set_timeout eventqueueTimegap s1 else s1)"

text \<open>The host runs the pending timeout with handle \<open>h\<close>; an exception that leaves
  the callback is reported by the host and the state stays as the callback left it.\<close>

definition timeout_fires :: "nat \<Rightarrow> 'f ggrc \<Rightarrow> 'f ggrc" where
  "timeout_fires h s =
     (if h \<in> fst ` set (timers s)
      then state_of (queue_exec_next (s\<lparr>timers := filter (\<lambda>t. fst t \<noteq> h) (timers s)\<rparr>))
      else s)"



datatype 'f action = Queue_event "'f events" | Queue_exec_next | Timeout_fires nat

fun step :: "'f action \<Rightarrow> 'f ggrc \<Rightarrow> 'f ggrc" where
  "step (Queue_event events) s = queue_event events s"
| "step Queue_exec_next s = state_of (queue_exec_next s)"
| "step (Timeout_fires h) s = timeout_fires h s"

definition run :: "'f action list \<Rightarrow> 'f ggrc \<Rightarrow> 'f ggrc" where
  "run steps s = foldl (\<lambda>s x. step x s) s steps"

definition functions_of :: "'f events \<Rightarrow> 'f operation list" where
  "functions_of events = (case events of Function f \<Rightarrow> [f] | Array fs \<Rightarrow> fs)"

text \<open>The operations an action puts into the queue.\<close>

fun enqueued :: "'f action \<Rightarrow> 'f operation list" where
  "enqueued (Queue_event events) = functions_of events"
| "enqueued Queue_exec_next = []"
| "enqueued (Timeout_fires h) = []"

text \<open>A handle is stored while the queue is not empty, and the stored handle is never 0.\<close>

definition stored :: "'f ggrc \<Rightarrow> bool" where
  "stored s = ((case eventqueueTimeout s of
                  None \<Rightarrow> eventqueue s = []
                | Some h \<Rightarrow> 0 < h))"

text \<open>The stored handle denotes a pending timeout, and one is stored while the queue
  is not empty.\<close>

definition scheduled :: "'f ggrc \<Rightarrow> bool" where
  "scheduled s =
     ((case eventqueueTimeout s of
         None \<Rightarrow> eventqueue s = []
       | Some h \<Rightarrow> 0 < h \<and> h \<in> fst ` set (timers s)))"

text \<open>No operation in the list throws.\<close>

definition all_return :: "'f operation list \<Rightarrow> bool" where
  "all_return ops = list_all (\<lambda>op. \<not> throws op) ops"

section \<open>Digits and characters\<close>

lemma digit_char_inverse: "d < 10 \<Longrightarrow> digit_of (digit_char d) = d"
  by (simp add: digit_of_def digit_char_def)

lemma is_digit_digit_char: "d < 10 \<Longrightarrow> is_digit (digit_char d)"
  by (simp add: is_digit_def digit_char_def)

lemma is_digit_not_point: "is_digit c \<Longrightarrow> c \<noteq> CHR ''.''"
  by (auto simp: is_digit_def)

lemma digit_of_less: "is_digit c \<Longrightarrow> digit_of c < 10"
  by (auto simp: is_digit_def digit_of_def)

lemma is_digit_zero: "is_digit CHR ''0''"
  by (simp add: is_digit_def)

lemma digit_of_zero: "digit_of CHR ''0'' = 0"
  by (simp add: digit_of_def)

lemma to_number_digit: "is_digit c \<Longrightarrow> to_number c = Some (digit_of c)"
  by (simp add: to_number_def)

lemma show_nat_digit: "n < 10 \<Longrightarrow> show_nat n = [digit_char n]"
  by (simp add: show_nat.simps)

lemma pad_left_eq: "pad_left a adi bdi = (replicate (bdi - adi) CHR ''0'' @ a, max adi bdi)"
proof (induction a adi bdi rule: pad_left.induct)
  case (1 a adi bdi)
  show ?case
  proof (cases "adi < bdi")
    case True
    then have "bdi - adi = Suc (bdi - Suc adi)" by simp
    with True 1 show ?thesis
      by (simp add: pad_left.simps [of a adi bdi] replicate_app_Cons_same max_def)
  next
    case False
    then show ?thesis by (simp add: pad_left.simps [of a adi bdi] max_def)
  qed
qed

lemma num_plus_commute: "num_plus x y = num_plus y x"
  by (simp add: num_plus_def split: option.splits)

lemma add_loop_commute: "add_loop a b n c ret = add_loop b a n c ret"
proof (induction n arbitrary: c ret)
  case 0
  show ?case by simp
next
  case (Suc n)
  show ?case
    by (simp add: Let_def Suc num_plus_commute [of "plus_or_zero (char_at a n)"] disj_commute)
qed

lemma align_eq:
  "align a b =
     (replicate (snd (with_point b) - snd (with_point a)) CHR ''0'' @ fst (with_point a),
      replicate (snd (with_point a) - snd (with_point b)) CHR ''0'' @ fst (with_point b))"
  by (simp add: align_def pad_left_eq split_beta Let_def max_def)

lemma align_commute: "align a b = (a2, b2) \<Longrightarrow> align b a = (b2, a2)"
  by (simp add: align_eq)

lemma string_add_commute_all: "string_add a b = string_add b a"
proof -
  obtain a2 b2 where ab: "align a b = (a2, b2)" by (cases "align a b")
  then have ba: "align b a = (b2, a2)" by (rule align_commute)
  show ?thesis
    by (simp add: string_add_def ab ba add_loop_commute [of a2 b2] max.commute)
qed

lemma add_loop_step_throw:
  "point_at a n \<noteq> point_at b n \<Longrightarrow> add_loop a b (Suc n) c ret = Inl Decimal_alignment_error"
  by (auto simp: Let_def point_at_def)

lemma add_loop_step_continue:
  assumes "point_at a n = point_at b n"
  shows "\<exists>c' ret'. add_loop a b (Suc n) c ret = add_loop a b n c' ret'"
proof (cases "point_at a n")
  case True
  with assms have "add_loop a b (Suc n) c ret = add_loop a b n c (''.'' # ret)"
    by (simp add: point_at_def)
  then show ?thesis by blast
next
  case False
  with assms have "add_loop a b (Suc n) c ret =
      add_loop a b n
        (num_div (num_plus (num_plus (plus_or_zero (char_at a n)) (plus_or_zero (char_at b n))) c) 10)
        (to_string (num_mod (num_plus (num_plus (plus_or_zero (char_at a n)) (plus_or_zero (char_at b n))) c) 10) # ret)"
    by (simp add: point_at_def Let_def)
  then show ?thesis by blast
qed

lemma add_loop_throws_iff:
  "(add_loop a b n c ret = Inl Decimal_alignment_error) =
   (\<exists>i<n. point_at a i \<noteq> point_at b i)"
proof (induction n arbitrary: c ret)
  case 0
  show ?case by simp
next
  case (Suc n)
  show ?case
  proof (cases "point_at a n = point_at b n")
    case False
    then have "add_loop a b (Suc n) c ret = Inl Decimal_alignment_error"
      by (rule add_loop_step_throw)
    moreover from False have "\<exists>i<Suc n. point_at a i \<noteq> point_at b i" by blast
    ultimately show ?thesis by simp
  next
    case True
    then obtain c' ret' where "add_loop a b (Suc n) c ret = add_loop a b n c' ret'"
      using add_loop_step_continue by blast
    then have "(add_loop a b (Suc n) c ret = Inl Decimal_alignment_error) =
               (\<exists>i<n. point_at a i \<noteq> point_at b i)"
      using Suc [of c' ret'] by simp
    also have "\<dots> = (\<exists>i<Suc n. point_at a i \<noteq> point_at b i)"
      using True by (auto simp: less_Suc_eq)
    finally show ?thesis .
  qed
qed

section \<open>Well-formed strings\<close>

lemma wf_decimal_split:
  assumes "wf_decimal a"
  shows "\<exists>ip fp. fst (with_point a) = ip @ CHR ''.'' # fp \<and> snd (with_point a) = length ip \<and>
           (\<forall>c\<in>set ip. is_digit c) \<and> (\<forall>c\<in>set fp. is_digit c)"
proof (cases "CHR ''.'' \<in> set a")
  case False
  with assms have "\<forall>c\<in>set a. is_digit c" by (auto simp: wf_decimal_def)
  with False show ?thesis
    by (intro exI [of _ a] exI [of _ "[]"]) (simp add: with_point_def index_of_def)
next
  case True
  then obtain ip fp where a: "a = ip @ CHR ''.'' # fp" and nip: "CHR ''.'' \<notin> set ip"
    by (auto dest: split_list_first)
  from nip have tw: "takeWhile (\<lambda>x. x \<noteq> CHR ''.'') (ip @ CHR ''.'' # fp) = ip"
    by (induction ip) auto
  from assms have "count_list (ip @ CHR ''.'' # fp) CHR ''.'' \<le> 1"
    unfolding a by (simp add: wf_decimal_def)
  then have "count_list fp CHR ''.'' = 0" by simp
  then have nfp: "CHR ''.'' \<notin> set fp" by (simp add: count_list_0_iff)
  from assms have "\<forall>c\<in>set (ip @ CHR ''.'' # fp). is_digit c \<or> c = CHR ''.''"
    unfolding a by (simp add: wf_decimal_def)
  with nip nfp have dig: "(\<forall>c\<in>set ip. is_digit c) \<and> (\<forall>c\<in>set fp. is_digit c)"
    by auto
  have "with_point (ip @ CHR ''.'' # fp) = (ip @ CHR ''.'' # fp, length ip)"
    by (simp add: with_point_def index_of_def tw)
  with dig show ?thesis unfolding a by auto
qed

section \<open>Values under padding\<close>

lemma digits_val_Nil: "digits_val [] = 0"
  by (simp add: digits_val_def)

lemma digits_val_snoc: "digits_val (s @ [x]) = 10 * digits_val s + digit_of x"
  by (simp add: digits_val_def)

lemma digits_val_append: "digits_val (s @ t) = digits_val s * 10 ^ length t + digits_val t"
  by (induction t rule: rev_induct)
     (simp_all add: digits_val_Nil digits_val_snoc append_assoc [symmetric] algebra_simps del: append_assoc)

lemma digits_val_Cons: "digits_val (x # s) = digit_of x * 10 ^ length s + digits_val s"
  using digits_val_append [of "[x]" s] digits_val_snoc [of "[]" x]
  by (simp add: digits_val_Nil)

lemma digits_val_zeros: "digits_val (replicate k CHR ''0'') = 0"
  by (induction k) (simp_all add: digits_val_Nil digits_val_Cons digit_of_zero)

lemma digits_append: "digits (s @ t) = digits s @ digits t"
  by (simp add: digits_def)

lemma digits_zeros: "digits (replicate k CHR ''0'') = replicate k CHR ''0''"
  by (induction k) (simp_all add: digits_def)

lemma digits_all_digits: "\<forall>c\<in>set s. is_digit c \<Longrightarrow> digits s = s"
  by (induction s) (auto simp: digits_def dest: is_digit_not_point)

lemma frac_len_no_point: "CHR ''.'' \<notin> set s \<Longrightarrow> frac_len (s @ t) = frac_len t"
  by (induction s) (auto simp: frac_len_def)

lemma frac_len_point: "frac_len (CHR ''.'' # t) = length t"
  by (simp add: frac_len_def)

lemma frac_len_Nil: "frac_len [] = 0"
  by (simp add: frac_len_def)

lemma frac_len_split: "CHR ''.'' \<notin> set s \<Longrightarrow> frac_len (s @ CHR ''.'' # t) = length t"
  by (simp add: frac_len_no_point frac_len_point)

lemma frac_len_none: "CHR ''.'' \<notin> set s \<Longrightarrow> frac_len s = 0"
  using frac_len_no_point [of s "[]"] by (simp add: frac_len_Nil)

lemma frac_len_append: "CHR ''.'' \<in> set s \<Longrightarrow> frac_len (s @ t) = frac_len s + length t"
proof (induction s)
  case Nil
  then show ?case by simp
next
  case (Cons x s)
  show ?case
  proof (cases "x = CHR ''.''")
    case True
    then show ?thesis by (simp add: frac_len_def)
  next
    case False
    with Cons have "frac_len (s @ t) = frac_len s + length t" by simp
    with False show ?thesis by (simp add: frac_len_def)
  qed
qed

lemma dec_value_pad_right:
  assumes "CHR ''.'' \<in> set s"
  shows "dec_value (s @ replicate k CHR ''0'') = dec_value s"
proof -
  have "digits_val (digits (s @ replicate k CHR ''0'')) = digits_val (digits s) * 10 ^ k"
    by (simp add: digits_append digits_zeros digits_val_append digits_val_zeros)
  moreover have "frac_len (s @ replicate k CHR ''0'') = frac_len s + k"
    using assms by (simp add: frac_len_append)
  ultimately show ?thesis
    by (simp add: dec_value_def power_add)
qed

lemma dec_value_pad_left: "dec_value (replicate k CHR ''0'' @ s) = dec_value s"
proof -
  have "digits_val (digits (replicate k CHR ''0'' @ s)) = digits_val (digits s)"
    by (simp add: digits_append digits_zeros digits_val_append digits_val_zeros)
  moreover have "frac_len (replicate k CHR ''0'' @ s) = frac_len s"
    by (rule frac_len_no_point) simp
  ultimately show ?thesis
    by (simp add: dec_value_def)
qed

lemma dec_value_with_point: "dec_value (fst (with_point a)) = dec_value a"
proof (cases "CHR ''.'' \<in> set a")
  case True
  then show ?thesis by (simp add: with_point_def index_of_def)
next
  case False
  then have "frac_len (a @ ''.'') = 0" "frac_len a = 0"
    by (simp_all add: frac_len_split frac_len_none)
  moreover have "digits (a @ ''.'') = digits a"
    by (simp add: digits_def)
  ultimately have "dec_value (a @ ''.'') = dec_value a"
    by (simp add: dec_value_def)
  with False show ?thesis by (simp add: with_point_def index_of_def)
qed

lemma dec_value_align:
  "dec_value (fst (align a b)) = dec_value a" "dec_value (snd (align a b)) = dec_value b"
  by (simp_all add: align_eq dec_value_pad_left dec_value_with_point)

section \<open>Alignment of the operands of \<open>string_add\<close>\<close>

lemma align_wf:
  assumes "wf_decimal a" "wf_decimal b"
  shows "\<exists>ia fa ib fb. align a b = (ia @ CHR ''.'' # fa, ib @ CHR ''.'' # fb) \<and>
           length ia = length ib \<and>
           (\<forall>c\<in>set ia. is_digit c) \<and> (\<forall>c\<in>set fa. is_digit c) \<and>
           (\<forall>c\<in>set ib. is_digit c) \<and> (\<forall>c\<in>set fb. is_digit c)"
proof -
  from wf_decimal_split [OF assms(1)] obtain ip fp where
    a: "fst (with_point a) = ip @ CHR ''.'' # fp" "snd (with_point a) = length ip"
       "\<forall>c\<in>set ip. is_digit c" "\<forall>c\<in>set fp. is_digit c"
    by blast
  from wf_decimal_split [OF assms(2)] obtain iq fq where
    b: "fst (with_point b) = iq @ CHR ''.'' # fq" "snd (with_point b) = length iq"
       "\<forall>c\<in>set iq. is_digit c" "\<forall>c\<in>set fq. is_digit c"
    by blast
  let ?ia = "replicate (length iq - length ip) CHR ''0'' @ ip"
  let ?ib = "replicate (length ip - length iq) CHR ''0'' @ iq"
  have "align a b = (?ia @ CHR ''.'' # fp, ?ib @ CHR ''.'' # fq)"
    by (simp add: align_eq a b)
  moreover have "length ?ia = length ?ib" by simp
  moreover have "\<forall>c\<in>set ?ia. is_digit c" "\<forall>c\<in>set ?ib. is_digit c"
    using a(3) b(3) by (auto simp: is_digit_zero)
  ultimately show ?thesis using a(4) b(4) by blast
qed

lemma point_at_split:
  assumes "\<forall>c\<in>set i. is_digit c" "\<forall>c\<in>set f. is_digit c"
  shows "point_at (i @ CHR ''.'' # f) k = (k = length i)"
proof -
  consider "k < length i" | "k = length i" | "length i < k"
    by linarith
  then show ?thesis
  proof cases
    case 1
    then have "i ! k \<in> set i" by simp
    with assms(1) have "i ! k \<noteq> CHR ''.''" by (blast dest: is_digit_not_point)
    with 1 show ?thesis by (simp add: point_at_def char_at_def nth_append)
  next
    case 2
    then show ?thesis by (simp add: point_at_def char_at_def)
  next
    case 3
    define j where "j = k - Suc (length i)"
    have k: "k = length i + Suc j" unfolding j_def using 3 by arith
    have nth: "(i @ CHR ''.'' # f) ! (length i + Suc j) = f ! j"
      by (simp add: nth_append)
    have "f ! j \<noteq> CHR ''.''" if "j < length f"
    proof -
      from that have "f ! j \<in> set f" by simp
      with assms(2) show ?thesis by (blast dest: is_digit_not_point)
    qed
    then show ?thesis unfolding k point_at_def char_at_def nth by auto
  qed
qed

lemma add_loop_cong:
  assumes "\<forall>i<n. point_at a i = point_at a' i \<and>
                  plus_or_zero (char_at a i) = plus_or_zero (char_at a' i)"
      and "\<forall>i<n. point_at b i = point_at b' i \<and>
                  plus_or_zero (char_at b i) = plus_or_zero (char_at b' i)"
  shows "add_loop a b n c ret = add_loop a' b' n c ret"
  using assms
proof (induction n arbitrary: c ret)
  case 0
  show ?case by simp
next
  case (Suc n)
  from Suc.prems have pa: "point_at a n = point_at a' n" and pb: "point_at b n = point_at b' n"
    and na: "plus_or_zero (char_at a n) = plus_or_zero (char_at a' n)"
    and nb: "plus_or_zero (char_at b n) = plus_or_zero (char_at b' n)"
    by simp_all
  from Suc.prems have ih: "\<And>c ret. add_loop a b n c ret = add_loop a' b' n c ret"
    by (intro Suc.IH) simp_all
  show ?case
    using pa pb by (simp add: Let_def ih na nb point_at_def)
qed

lemma pad_right_same:
  "point_at (a @ replicate k CHR ''0'') i = point_at a i"
  "plus_or_zero (char_at (a @ replicate k CHR ''0'') i) = plus_or_zero (char_at a i)"
  by (simp_all add: point_at_def char_at_def nth_append plus_or_zero_def to_number_def
        is_digit_zero digit_of_zero)

lemma add_loop_pad_right:
  "add_loop a b n c ret =
   add_loop (a @ replicate k CHR ''0'') (b @ replicate l CHR ''0'') n c ret"
  by (rule add_loop_cong) (simp_all add: pad_right_same)

section \<open>The digit loop of \<open>string_add\<close>\<close>

lemma digits_snoc_point: "digits (s @ ''.'') = digits s"
  by (simp add: digits_def)

lemma digits_snoc_digit: "is_digit d \<Longrightarrow> digits (s @ [d]) = digits s @ [d]"
  by (auto simp: digits_def dest: is_digit_not_point)

lemma add_step_point:
  assumes "char_at xs n = Some CHR ''.''" "char_at ys n = Some CHR ''.''"
  shows "add_loop xs ys (Suc n) c ret = add_loop xs ys n c (''.'' # ret)"
  using assms by simp

lemma add_step_digit:
  assumes "char_at xs n = Some x" "char_at ys n = Some y" "is_digit x" "is_digit y"
  shows "add_loop xs ys (Suc n) (Some c) ret =
         add_loop xs ys n (Some ((digit_of x + digit_of y + c) div 10))
           ([digit_char ((digit_of x + digit_of y + c) mod 10)] # ret)"
proof -
  from assms(3,4) have "x \<noteq> CHR ''.''" "y \<noteq> CHR ''.''"
    by (auto dest: is_digit_not_point)
  moreover have "num_plus (num_plus (plus_or_zero (Some x)) (plus_or_zero (Some y))) (Some c) =
                 Some (digit_of x + digit_of y + c)"
    using assms(3,4) by (simp add: plus_or_zero_def to_number_digit num_plus_def)
  moreover have "to_string (Some ((digit_of x + digit_of y + c) mod 10)) =
                 [digit_char ((digit_of x + digit_of y + c) mod 10)]"
    by (simp add: to_string_def show_nat_digit)
  ultimately show ?thesis
    using assms(1,2) by (simp add: Let_def num_div_def num_mod_def)
qed

lemma add_loop_digits:
  assumes al: "list_all2 aligned xs ys"
  shows "n \<le> length xs \<Longrightarrow> c \<le> 1 \<Longrightarrow>
    \<exists>c' r. add_loop xs ys n (Some c) ret = Inr (Some c', map (\<lambda>d. [d]) r @ ret) \<and> c' \<le> 1 \<and>
       map (\<lambda>d. d = CHR ''.'') r = map (\<lambda>d. d = CHR ''.'') (take n xs) \<and>
       (\<forall>d\<in>set r. is_digit d \<or> d = CHR ''.'') \<and>
       c' * 10 ^ length (digits r) + digits_val (digits r) =
         digits_val (digits (take n xs)) + digits_val (digits (take n ys)) + c"
proof (induction n arbitrary: c ret)
  case 0
  then have c: "c \<le> 1" by simp
  show ?case
    by (intro exI [of _ c] exI [of _ "[]"]) (use c in \<open>simp add: digits_def digits_val_Nil\<close>)
next
  case (Suc n)
  from al have len: "length xs = length ys" by (rule list_all2_lengthD)
  from Suc.prems have n: "n < length xs" "n < length ys" using len by simp_all
  then have cx: "char_at xs n = Some (xs ! n)" and cy: "char_at ys n = Some (ys ! n)"
    by (simp_all add: char_at_def)
  from n have tx: "take (Suc n) xs = take n xs @ [xs ! n]"
    and ty: "take (Suc n) ys = take n ys @ [ys ! n]"
    by (simp_all add: take_Suc_conv_app_nth)
  from al n have a: "aligned (xs ! n) (ys ! n)" by (simp add: list_all2_nthD)
  show ?case
  proof (cases "xs ! n = CHR ''.''")
    case True
    with a have y: "ys ! n = CHR ''.''" by (simp add: aligned_def)
    have step: "add_loop xs ys (Suc n) (Some c) ret = add_loop xs ys n (Some c) (''.'' # ret)"
      using cx cy True y by (intro add_step_point) simp_all
    from Suc.IH [of c "''.'' # ret"] Suc.prems obtain c' r where
      ih: "add_loop xs ys n (Some c) (''.'' # ret) = Inr (Some c', map (\<lambda>d. [d]) r @ ''.'' # ret)"
        "c' \<le> 1" "map (\<lambda>d. d = CHR ''.'') r = map (\<lambda>d. d = CHR ''.'') (take n xs)"
        "c' * 10 ^ length (digits r) + digits_val (digits r) =
           digits_val (digits (take n xs)) + digits_val (digits (take n ys)) + c"
        "\<forall>d\<in>set r. is_digit d \<or> d = CHR ''.''"
      by auto
    show ?thesis
    proof (intro exI [of _ c'] exI [of _ "r @ ''.''"] conjI)
      show "add_loop xs ys (Suc n) (Some c) ret = Inr (Some c', map (\<lambda>d. [d]) (r @ ''.'') @ ret)"
        using step ih(1) by simp
      show "c' \<le> 1" by (rule ih(2))
      show "map (\<lambda>d. d = CHR ''.'') (r @ ''.'') = map (\<lambda>d. d = CHR ''.'') (take (Suc n) xs)"
        using ih(3) True by (simp add: tx)
      show "\<forall>d\<in>set (r @ ''.''). is_digit d \<or> d = CHR ''.''"
        using ih(5) by simp
      show "c' * 10 ^ length (digits (r @ ''.'')) + digits_val (digits (r @ ''.'')) =
            digits_val (digits (take (Suc n) xs)) + digits_val (digits (take (Suc n) ys)) + c"
        using ih(4) by (simp only: tx ty True y digits_snoc_point)
    qed
  next
    case False
    with a have dx: "is_digit (xs ! n)" and dy: "is_digit (ys ! n)" by (simp_all add: aligned_def)
    define s where "s = digit_of (xs ! n) + digit_of (ys ! n) + c"
    have s19: "s div 10 \<le> 1"
      using digit_of_less [OF dx] digit_of_less [OF dy] Suc.prems(2) unfolding s_def by simp
    have dm: "is_digit (digit_char (s mod 10))" by (simp add: is_digit_digit_char)
    have step: "add_loop xs ys (Suc n) (Some c) ret =
                add_loop xs ys n (Some (s div 10)) ([digit_char (s mod 10)] # ret)"
      unfolding s_def using cx cy dx dy by (rule add_step_digit)
    from Suc.IH [of "s div 10" "[digit_char (s mod 10)] # ret"] Suc.prems s19 obtain c' r where
      ih: "add_loop xs ys n (Some (s div 10)) ([digit_char (s mod 10)] # ret) =
             Inr (Some c', map (\<lambda>d. [d]) r @ [digit_char (s mod 10)] # ret)"
        "c' \<le> 1" "map (\<lambda>d. d = CHR ''.'') r = map (\<lambda>d. d = CHR ''.'') (take n xs)"
        "c' * 10 ^ length (digits r) + digits_val (digits r) =
           digits_val (digits (take n xs)) + digits_val (digits (take n ys)) + s div 10"
        "\<forall>d\<in>set r. is_digit d \<or> d = CHR ''.''"
      by auto
    show ?thesis
    proof (intro exI [of _ c'] exI [of _ "r @ [digit_char (s mod 10)]"] conjI)
      show "add_loop xs ys (Suc n) (Some c) ret =
            Inr (Some c', map (\<lambda>d. [d]) (r @ [digit_char (s mod 10)]) @ ret)"
        using step ih(1) by simp
      show "c' \<le> 1" by (rule ih(2))
      show "map (\<lambda>d. d = CHR ''.'') (r @ [digit_char (s mod 10)]) =
            map (\<lambda>d. d = CHR ''.'') (take (Suc n) xs)"
        using ih(3) False is_digit_not_point [OF dm] by (simp add: tx)
      show "\<forall>d\<in>set (r @ [digit_char (s mod 10)]). is_digit d \<or> d = CHR ''.''"
        using ih(5) dm by simp
      have "c' * 10 ^ length (digits (r @ [digit_char (s mod 10)])) +
              digits_val (digits (r @ [digit_char (s mod 10)])) =
            10 * (c' * 10 ^ length (digits r) + digits_val (digits r)) + s mod 10"
        by (simp add: digits_snoc_digit [OF dm] digits_val_snoc digit_char_inverse algebra_simps)
      also have "\<dots> = 10 * (digits_val (digits (take n xs)) + digits_val (digits (take n ys))) + s"
        unfolding ih(4) by presburger
      also have "\<dots> = digits_val (digits (take (Suc n) xs)) +
                        digits_val (digits (take (Suc n) ys)) + c"
        by (simp add: tx ty digits_snoc_digit dx dy digits_val_snoc s_def)
      finally show "c' * 10 ^ length (digits (r @ [digit_char (s mod 10)])) +
              digits_val (digits (r @ [digit_char (s mod 10)])) =
            digits_val (digits (take (Suc n) xs)) + digits_val (digits (take (Suc n) ys)) + c" .
    qed
  qed
qed

section \<open>The result of \<open>string_add\<close>\<close>

lemma list_all2_aligned_digits:
  "length xs = length ys \<Longrightarrow> \<forall>c\<in>set xs. is_digit c \<Longrightarrow> \<forall>c\<in>set ys. is_digit c \<Longrightarrow>
   list_all2 aligned xs ys"
  by (induction rule: list_induct2) (auto simp: aligned_def dest: is_digit_not_point)

lemma digits_no_point: "CHR ''.'' \<notin> set s \<Longrightarrow> digits s = s"
  by (induction s) (auto simp: digits_def)

lemma all_digits_no_point: "\<forall>c\<in>set s. is_digit c \<Longrightarrow> CHR ''.'' \<notin> set s"
  by (auto dest: is_digit_not_point)

lemma point_map_mem:
  assumes "map (\<lambda>d. d = c) u = map (\<lambda>d. d = c) v"
  shows "(c \<in> set u) = (c \<in> set v)"
proof -
  have h: "(c \<in> set w) = (True \<in> set (map (\<lambda>d. d = c) w))" for w :: "'a list"
    by (induction w) auto
  have "(c \<in> set u) = (True \<in> set (map (\<lambda>d. d = c) u))" by (rule h)
  also have "\<dots> = (True \<in> set (map (\<lambda>d. d = c) v))" by (simp only: assms)
  also have "\<dots> = (c \<in> set v)" by (rule h [symmetric])
  finally show ?thesis .
qed

lemma point_map_split:
  assumes "map (\<lambda>d. d = CHR ''.'') r = map (\<lambda>d. d = CHR ''.'') (i @ CHR ''.'' # f)"
    and "CHR ''.'' \<notin> set i" "CHR ''.'' \<notin> set f"
  shows "\<exists>ri rf. r = ri @ CHR ''.'' # rf \<and> length ri = length i \<and> length rf = length f \<and>
           CHR ''.'' \<notin> set ri \<and> CHR ''.'' \<notin> set rf"
proof -
  from assms(1) obtain ri rest where r: "r = ri @ rest"
    and ri: "map (\<lambda>d. d = CHR ''.'') ri = map (\<lambda>d. d = CHR ''.'') i"
    and rest: "map (\<lambda>d. d = CHR ''.'') rest = True # map (\<lambda>d. d = CHR ''.'') f"
    by (auto simp: map_eq_append_conv)
  from rest obtain z rf where z: "rest = z # rf" "z = CHR ''.''"
    and rf: "map (\<lambda>d. d = CHR ''.'') rf = map (\<lambda>d. d = CHR ''.'') f"
    by (auto simp: map_eq_Cons_conv)
  from ri have "length ri = length i" by (rule map_eq_imp_length_eq)
  moreover from rf have "length rf = length f" by (rule map_eq_imp_length_eq)
  moreover from point_map_mem [OF ri] assms(2) have "CHR ''.'' \<notin> set ri" by simp
  moreover from point_map_mem [OF rf] assms(3) have "CHR ''.'' \<notin> set rf" by simp
  ultimately show ?thesis using r z by blast
qed

lemma pop_point_chars:
  "pop_point (map (\<lambda>d. [d]) w) =
   map (\<lambda>d. [d]) (if w \<noteq> [] \<and> last w = CHR ''.'' then butlast w else w)"
proof (cases "w = []")
  case True
  then show ?thesis by (simp add: pop_point_def)
next
  case False
  then have "last (map (\<lambda>d. [d]) w) = [last w]" by (simp add: last_map)
  with False show ?thesis by (simp add: pop_point_def map_butlast)
qed

lemma concat_chars: "concat (map (\<lambda>d. [d]) w) = w"
  by (induction w) simp_all

lemma popped_chars:
  "concat (pop_point (map (\<lambda>d. [d]) w)) =
   (if w \<noteq> [] \<and> last w = CHR ''.'' then butlast w else w)"
  by (simp only: pop_point_chars concat_chars)

lemma dec_value_split:
  assumes "CHR ''.'' \<notin> set i" "CHR ''.'' \<notin> set f"
  shows "dec_value (i @ CHR ''.'' # f) = of_nat (digits_val (i @ f)) / 10 ^ length f"
proof -
  have "digits (i @ CHR ''.'' # f) = digits i @ digits f"
    by (simp add: digits_def)
  with assms have "digits (i @ CHR ''.'' # f) = i @ f"
    by (simp add: digits_no_point)
  then show ?thesis
    using assms by (simp add: dec_value_def frac_len_split)
qed

lemma dec_value_no_point:
  "CHR ''.'' \<notin> set i \<Longrightarrow> dec_value i = of_nat (digits_val i)"
  by (simp add: dec_value_def frac_len_none digits_no_point)

text \<open>What \<open>pop_point\<close> and \<open>concat\<close> leave of the characters \<open>i . f\<close>.\<close>

lemma dec_value_popped:
  assumes "CHR ''.'' \<notin> set i" "CHR ''.'' \<notin> set f"
  shows "dec_value (concat (pop_point (map (\<lambda>d. [d]) (i @ CHR ''.'' # f)))) =
         of_nat (digits_val (i @ f)) / 10 ^ length f"
proof (cases "f = []")
  case True
  then have "concat (pop_point (map (\<lambda>d. [d]) (i @ CHR ''.'' # f))) = i"
    unfolding popped_chars by simp
  with True show ?thesis
    using assms by (simp add: dec_value_no_point)
next
  case False
  then have "last f \<in> set f" by simp
  with assms(2) have "last f \<noteq> CHR ''.''" by metis
  with False have "concat (pop_point (map (\<lambda>d. [d]) (i @ CHR ''.'' # f))) = i @ CHR ''.'' # f"
    unfolding popped_chars by simp
  then show ?thesis
    using assms by (simp add: dec_value_split)
qed

lemma wf_decimal_digits: "\<forall>c\<in>set i. is_digit c \<Longrightarrow> wf_decimal i"
  using all_digits_no_point [of i] by (simp add: wf_decimal_def count_list_0_iff)

lemma wf_decimal_splitI:
  assumes "\<forall>c\<in>set i. is_digit c" "\<forall>c\<in>set f. is_digit c"
  shows "wf_decimal (i @ CHR ''.'' # f)"
proof -
  have "count_list i CHR ''.'' = 0" "count_list f CHR ''.'' = 0"
    using assms by (simp_all add: all_digits_no_point count_list_0_iff)
  then have "count_list (i @ CHR ''.'' # f) CHR ''.'' = 1" by simp
  moreover have "\<forall>c\<in>set (i @ CHR ''.'' # f). is_digit c \<or> c = CHR ''.''"
    using assms by auto
  ultimately show ?thesis by (simp add: wf_decimal_def)
qed

lemma wf_decimal_popped:
  assumes "\<forall>c\<in>set i. is_digit c" "\<forall>c\<in>set f. is_digit c"
  shows "wf_decimal (concat (pop_point (map (\<lambda>d. [d]) (i @ CHR ''.'' # f))))"
proof (cases "f = []")
  case True
  then have "concat (pop_point (map (\<lambda>d. [d]) (i @ CHR ''.'' # f))) = i"
    unfolding popped_chars by simp
  with assms(1) show ?thesis by (simp add: wf_decimal_digits)
next
  case False
  then have "last f \<in> set f" by simp
  with assms(2) have "last f \<noteq> CHR ''.''" by (blast dest: is_digit_not_point)
  with False have "concat (pop_point (map (\<lambda>d. [d]) (i @ CHR ''.'' # f))) = i @ CHR ''.'' # f"
    unfolding popped_chars by simp
  with assms show ?thesis by (simp add: wf_decimal_splitI)
qed

lemma digits_of_split:
  assumes "\<forall>d\<in>set (i @ CHR ''.'' # f). is_digit d \<or> d = CHR ''.''"
    and "CHR ''.'' \<notin> set i" "CHR ''.'' \<notin> set f"
  shows "\<forall>c\<in>set i. is_digit c" "\<forall>c\<in>set f. is_digit c"
  using assms by auto

lemma string_add_wf:
  assumes "wf_decimal a" "wf_decimal b"
  shows "\<exists>s. string_add a b = Inr s \<and> wf_decimal s \<and>
              dec_value s = dec_value a + dec_value b"
proof -
  from align_wf [OF assms] obtain ia fa ib fb where
    al: "align a b = (ia @ CHR ''.'' # fa, ib @ CHR ''.'' # fb)" and len: "length ia = length ib"
    and dg: "\<forall>c\<in>set ia. is_digit c" "\<forall>c\<in>set fa. is_digit c"
        "\<forall>c\<in>set ib. is_digit c" "\<forall>c\<in>set fb. is_digit c"
    by blast
  define a2 where "a2 = ia @ CHR ''.'' # fa"
  define b2 where "b2 = ib @ CHR ''.'' # fb"
  define N where "N = max (length a2) (length b2)"
  define fa' where "fa' = fa @ replicate (N - length a2) CHR ''0''"
  define fb' where "fb' = fb @ replicate (N - length b2) CHR ''0''"
  have va: "dec_value a2 = dec_value a" and vb: "dec_value b2 = dec_value b"
    using dec_value_align [of a b] by (simp_all add: al a2_def b2_def)
  have pa: "a2 @ replicate (N - length a2) CHR ''0'' = ia @ CHR ''.'' # fa'"
    and pb: "b2 @ replicate (N - length b2) CHR ''0'' = ib @ CHR ''.'' # fb'"
    by (simp_all add: a2_def b2_def fa'_def fb'_def)
  have la: "length (ia @ CHR ''.'' # fa') = N" and lb: "length (ib @ CHR ''.'' # fb') = N"
    unfolding pa [symmetric] pb [symmetric] by (simp_all add: N_def)
  from la lb len have lf: "length fa' = length fb'" by simp
  have dgf: "\<forall>c\<in>set fa'. is_digit c" "\<forall>c\<in>set fb'. is_digit c"
    using dg(2,4) by (auto simp: fa'_def fb'_def is_digit_zero)
  have np: "CHR ''.'' \<notin> set ia" "CHR ''.'' \<notin> set ib" "CHR ''.'' \<notin> set fa'" "CHR ''.'' \<notin> set fb'"
    using dg(1,3) dgf by (simp_all add: all_digits_no_point)
  have vA: "dec_value (ia @ CHR ''.'' # fa') = dec_value a"
    unfolding pa [symmetric] va [symmetric] by (rule dec_value_pad_right) (simp add: a2_def)
  have vB: "dec_value (ib @ CHR ''.'' # fb') = dec_value b"
    unfolding pb [symmetric] vb [symmetric] by (rule dec_value_pad_right) (simp add: b2_def)
  have al2: "list_all2 aligned (ia @ CHR ''.'' # fa') (ib @ CHR ''.'' # fb')"
    using len lf dg(1,3) dgf
    by (intro list_all2_appendI) (simp_all add: list_all2_aligned_digits aligned_def)
  have loop: "add_loop a2 b2 N (Some 0) [] =
              add_loop (ia @ CHR ''.'' # fa') (ib @ CHR ''.'' # fb') N (Some 0) []"
    unfolding pa [symmetric] pb [symmetric] by (rule add_loop_pad_right)
  from add_loop_digits [OF al2, of N 0 "[]"] la obtain c' r where
    res: "add_loop (ia @ CHR ''.'' # fa') (ib @ CHR ''.'' # fb') N (Some 0) [] =
            Inr (Some c', map (\<lambda>d. [d]) r)"
    and c': "c' \<le> 1"
    and pm: "map (\<lambda>d. d = CHR ''.'') r = map (\<lambda>d. d = CHR ''.'') (ia @ CHR ''.'' # fa')"
    and sum: "c' * 10 ^ length (digits r) + digits_val (digits r) =
              digits_val (digits (ia @ CHR ''.'' # fa')) + digits_val (digits (ib @ CHR ''.'' # fb'))"
    and dgr: "\<forall>d\<in>set r. is_digit d \<or> d = CHR ''.''"
    using lb by auto
  from point_map_split [OF pm np(1,3)] obtain ri rf where
    r: "r = ri @ CHR ''.'' # rf" and lr: "length ri = length ia" "length rf = length fa'"
    and npr: "CHR ''.'' \<notin> set ri" "CHR ''.'' \<notin> set rf"
    by blast
  have dri: "\<forall>c\<in>set ri. is_digit c" and drf: "\<forall>c\<in>set rf. is_digit c"
    using dgr npr unfolding r by (rule digits_of_split)+
  define pre where "pre = (if 0 < c' then [digit_char c'] else [])"
  have dpre: "\<forall>c\<in>set pre. is_digit c"
    using c' by (simp add: pre_def is_digit_digit_char)
  have ppre: "CHR ''.'' \<notin> set pre"
    using c' is_digit_not_point [OF is_digit_digit_char, of c'] by (auto simp: pre_def)
  have vpre: "digits_val pre = c'"
    using c' by (simp add: pre_def digits_val_Nil digits_val_Cons digit_char_inverse)
  have dr: "digits r = ri @ rf"
    using npr by (simp add: r digits_append digits_no_point) (simp add: digits_def digits_no_point [unfolded digits_def])
  have out: "string_add a b = Inr (concat (pop_point (map (\<lambda>d. [d]) ((pre @ ri) @ CHR ''.'' # rf))))"
    using c' by (simp add: string_add_def al a2_def [symmetric] b2_def [symmetric]
        N_def [symmetric] loop res num_pos_def to_string_def show_nat_digit pre_def r)
  have "dec_value (concat (pop_point (map (\<lambda>d. [d]) ((pre @ ri) @ CHR ''.'' # rf)))) =
        of_nat (digits_val ((pre @ ri) @ rf)) / 10 ^ length rf"
    using ppre npr by (intro dec_value_popped) simp_all
  also have "digits_val ((pre @ ri) @ rf) = c' * 10 ^ length (digits r) + digits_val (digits r)"
    by (simp add: dr digits_val_append [of pre] vpre)
  also have "\<dots> = digits_val (ia @ fa') + digits_val (ib @ fb')"
    unfolding sum using np by (simp add: digits_append digits_no_point) (simp add: digits_def digits_no_point [unfolded digits_def])
  also have "of_nat (digits_val (ia @ fa') + digits_val (ib @ fb')) / (10::rat) ^ length rf =
             dec_value (ia @ CHR ''.'' # fa') + dec_value (ib @ CHR ''.'' # fb')"
    using np lf lr by (simp add: dec_value_split add_divide_distrib)
  finally have "dec_value (concat (pop_point (map (\<lambda>d. [d]) ((pre @ ri) @ CHR ''.'' # rf)))) =
      dec_value a + dec_value b"
    using vA vB by simp
  moreover have "wf_decimal (concat (pop_point (map (\<lambda>d. [d]) ((pre @ ri) @ CHR ''.'' # rf))))"
    using dpre dri drf by (intro wf_decimal_popped) auto
  ultimately show ?thesis
    using out by blast
qed

section \<open>The digit loop of \<open>string_half\<close>\<close>

lemma digits_length_cong:
  "map (\<lambda>d. d = CHR ''.'') r = map (\<lambda>d. d = CHR ''.'') xs \<Longrightarrow>
   length (digits r) = length (digits xs)"
proof (induction r arbitrary: xs)
  case Nil
  then show ?case by simp
next
  case (Cons y r)
  then obtain z zs where xs: "xs = z # zs" by (cases xs) auto
  with Cons.prems have "(y = CHR ''.'') = (z = CHR ''.'')"
    and "map (\<lambda>d. d = CHR ''.'') r = map (\<lambda>d. d = CHR ''.'') zs"
    by simp_all
  with Cons.IH [of zs] show ?case by (simp add: xs digits_def)
qed

lemma half_step_point: "half_loop (CHR ''.'' # xs) c ret = half_loop xs c (ret @ [''.''])"
  by simp

lemma half_step_digit:
  assumes "is_digit x" "c = 0 \<or> c = 10"
  shows "half_loop (x # xs) c ret =
         half_loop xs (if odd (digit_of x) then 10 else 0)
           (ret @ [ [digit_char ((digit_of x + c) div 2)] ])"
proof -
  from assms(1) have np: "x \<noteq> CHR ''.''" by (rule is_digit_not_point)
  have "(digit_of x + c) div 2 < 10"
    using digit_of_less [OF assms(1)] assms(2) by auto
  then have "to_string (num_div (num_plus (to_number x) (Some c)) 2) =
             [digit_char ((digit_of x + c) div 2)]"
    using assms(1) by (simp add: to_number_digit num_plus_def num_div_def to_string_def show_nat_digit)
  moreover have "num_pos (num_mod (to_number x) 2) = odd (digit_of x)"
    using assms(1) by (simp add: to_number_digit num_mod_def num_pos_def odd_iff_mod_2_eq_one)
  ultimately show ?thesis using np by simp
qed

lemma half_carry:
  fixes c d :: nat
  assumes "c = 0 \<or> c = 10"
  shows "(c div 10) * 10 + d = 2 * ((d + c) div 2) + (if odd d then 10 else 0) div 10"
proof (cases "odd d")
  case True
  with assms show ?thesis by (auto; presburger)
next
  case False
  with assms show ?thesis by (auto; presburger)
qed

lemma half_loop_digits:
  "\<forall>x\<in>set xs. is_digit x \<or> x = CHR ''.'' \<Longrightarrow> c = 0 \<or> c = 10 \<Longrightarrow>
   \<exists>c' r. half_loop xs c ret = (c', ret @ map (\<lambda>d. [d]) r) \<and> (c' = 0 \<or> c' = 10) \<and>
      map (\<lambda>d. d = CHR ''.'') r = map (\<lambda>d. d = CHR ''.'') xs \<and>
      (\<forall>d\<in>set r. is_digit d \<or> d = CHR ''.'') \<and>
      (c div 10) * 10 ^ length (digits xs) + digits_val (digits xs) =
        2 * digits_val (digits r) + c' div 10 \<and>
      (c' = 10) = (if digits xs = [] then c = 10 else odd (digit_of (last (digits xs))))"
proof (induction xs arbitrary: c ret)
  case Nil
  show ?case
    by (intro exI [of _ c] exI [of _ "[]"]) (use Nil in \<open>auto simp: digits_def digits_val_Nil\<close>)
next
  case (Cons x xs)
  from Cons.prems(1) have rest: "\<forall>x\<in>set xs. is_digit x \<or> x = CHR ''.''" by simp
  show ?case
  proof (cases "x = CHR ''.''")
    case True
    from Cons.IH [OF rest Cons.prems(2), of "ret @ [''.'']"] obtain c' r where
      ih: "half_loop xs c (ret @ [''.'']) = (c', (ret @ [''.'']) @ map (\<lambda>d. [d]) r)"
        "c' = 0 \<or> c' = 10" "map (\<lambda>d. d = CHR ''.'') r = map (\<lambda>d. d = CHR ''.'') xs"
        "(c div 10) * 10 ^ length (digits xs) + digits_val (digits xs) =
           2 * digits_val (digits r) + c' div 10"
        "(c' = 10) = (if digits xs = [] then c = 10 else odd (digit_of (last (digits xs))))"
        "\<forall>d\<in>set r. is_digit d \<or> d = CHR ''.''"
      by blast
    have dx: "digits (x # xs) = digits xs" and dr: "digits (CHR ''.'' # r) = digits r"
      using True by (simp_all add: digits_def)
    show ?thesis
    proof (intro exI [of _ c'] exI [of _ "CHR ''.'' # r"] conjI)
      show "half_loop (x # xs) c ret = (c', ret @ map (\<lambda>d. [d]) (CHR ''.'' # r))"
        using ih(1) True by simp
      show "c' = 0 \<or> c' = 10" by (rule ih(2))
      show "map (\<lambda>d. d = CHR ''.'') (CHR ''.'' # r) = map (\<lambda>d. d = CHR ''.'') (x # xs)"
        using ih(3) True by simp
      show "\<forall>d\<in>set (CHR ''.'' # r). is_digit d \<or> d = CHR ''.''"
        using ih(6) by simp
      show "(c div 10) * 10 ^ length (digits (x # xs)) + digits_val (digits (x # xs)) =
            2 * digits_val (digits (CHR ''.'' # r)) + c' div 10"
        unfolding dx dr by (rule ih(4))
      show "(c' = 10) = (if digits (x # xs) = [] then c = 10
                         else odd (digit_of (last (digits (x # xs)))))"
        unfolding dx by (rule ih(5))
    qed
  next
    case False
    with Cons.prems(1) have d: "is_digit x" by simp
    define c1 :: nat where "c1 = (if odd (digit_of x) then 10 else 0)"
    define q where "q = digit_char ((digit_of x + c) div 2)"
    have c1: "c1 = 0 \<or> c1 = 10" by (simp add: c1_def)
    have qlt: "(digit_of x + c) div 2 < 10"
      using digit_of_less [OF d] Cons.prems(2) by auto
    have qd: "is_digit q" "digit_of q = (digit_of x + c) div 2"
      using qlt by (simp_all add: q_def is_digit_digit_char digit_char_inverse)
    have step: "half_loop (x # xs) c ret = half_loop xs c1 (ret @ [ [q] ])"
      unfolding c1_def q_def using d Cons.prems(2) by (rule half_step_digit)
    from Cons.IH [OF rest c1, of "ret @ [ [q] ]"] obtain c' r where
      ih: "half_loop xs c1 (ret @ [ [q] ]) = (c', (ret @ [ [q] ]) @ map (\<lambda>d. [d]) r)"
        "c' = 0 \<or> c' = 10" "map (\<lambda>d. d = CHR ''.'') r = map (\<lambda>d. d = CHR ''.'') xs"
        "(c1 div 10) * 10 ^ length (digits xs) + digits_val (digits xs) =
           2 * digits_val (digits r) + c' div 10"
        "(c' = 10) = (if digits xs = [] then c1 = 10 else odd (digit_of (last (digits xs))))"
        "\<forall>d\<in>set r. is_digit d \<or> d = CHR ''.''"
      by blast
    have dx: "digits (x # xs) = x # digits xs" and dr: "digits (q # r) = q # digits r"
      using False is_digit_not_point [OF qd(1)] by (simp_all add: digits_def)
    have ll: "length (digits r) = length (digits xs)"
      using ih(3) by (rule digits_length_cong)
    show ?thesis
    proof (intro exI [of _ c'] exI [of _ "q # r"] conjI)
      show "half_loop (x # xs) c ret = (c', ret @ map (\<lambda>d. [d]) (q # r))"
        using ih(1) step by simp
      show "c' = 0 \<or> c' = 10" by (rule ih(2))
      show "map (\<lambda>d. d = CHR ''.'') (q # r) = map (\<lambda>d. d = CHR ''.'') (x # xs)"
        using ih(3) False is_digit_not_point [OF qd(1)] by simp
      show "\<forall>d\<in>set (q # r). is_digit d \<or> d = CHR ''.''"
        using ih(6) qd(1) by simp
      have "(c div 10) * 10 ^ length (digits (x # xs)) + digits_val (digits (x # xs)) =
            ((c div 10) * 10 + digit_of x) * 10 ^ length (digits xs) + digits_val (digits xs)"
        by (simp add: dx digits_val_Cons algebra_simps)
      also have "(c div 10) * 10 + digit_of x = 2 * digit_of q + c1 div 10"
        unfolding qd(2) c1_def using Cons.prems(2) by (rule half_carry)
      also have "(2 * digit_of q + c1 div 10) * 10 ^ length (digits xs) + digits_val (digits xs) =
            2 * digit_of q * 10 ^ length (digits xs) +
            ((c1 div 10) * 10 ^ length (digits xs) + digits_val (digits xs))"
        by (simp add: algebra_simps)
      also have "\<dots> = 2 * digits_val (digits (q # r)) + c' div 10"
        unfolding ih(4) by (simp add: dr digits_val_Cons ll algebra_simps)
      finally show "(c div 10) * 10 ^ length (digits (x # xs)) + digits_val (digits (x # xs)) =
            2 * digits_val (digits (q # r)) + c' div 10" .
      show "(c' = 10) = (if digits (x # xs) = [] then c = 10
                         else odd (digit_of (last (digits (x # xs)))))"
        unfolding ih(5) dx by (simp add: c1_def)
    qed
  qed
qed

section \<open>The result of \<open>string_half\<close>\<close>

lemma dec_value_zero_Cons: "dec_value (CHR ''0'' # s) = dec_value s"
  using dec_value_pad_left [of 1 s] by simp

lemma frac_len_zero_Cons: "frac_len (CHR ''0'' # s) = frac_len s"
  by (simp add: frac_len_def)

lemma dec_value_shift_zeros: "dec_value (concat (shift_zeros rs)) = dec_value (concat rs)"
  by (induction rs rule: shift_zeros.induct) (simp_all add: dec_value_zero_Cons)

lemma frac_len_shift_zeros: "frac_len (concat (shift_zeros rs)) = frac_len (concat rs)"
  by (induction rs rule: shift_zeros.induct) (simp_all add: frac_len_zero_Cons)

lemma wf_decimal_zero_Cons: "wf_decimal (CHR ''0'' # s) \<Longrightarrow> wf_decimal s"
  by (simp add: wf_decimal_def)

lemma wf_decimal_shift_zeros: "wf_decimal (concat rs) \<Longrightarrow> wf_decimal (concat (shift_zeros rs))"
proof (induction rs rule: shift_zeros.induct)
  case (1 x y ys)
  show ?case
  proof (cases "x = ''0''")
    case True
    with 1(2) have "wf_decimal (CHR ''0'' # concat (y # ys))" by simp
    then have "wf_decimal (concat (y # ys))" by (rule wf_decimal_zero_Cons)
    with 1(1) [OF True] True show ?thesis by simp
  next
    case False
    with 1(2) show ?thesis by simp
  qed
qed simp_all

lemma concat_last_nonempty: "rs \<noteq> [] \<Longrightarrow> last rs \<noteq> [] \<Longrightarrow> concat rs \<noteq> []"
  by (induction rs) (auto split: if_splits)

lemma last_shift_zeros:
  "rs \<noteq> [] \<Longrightarrow> last rs \<noteq> [] \<Longrightarrow> last (concat (shift_zeros rs)) = last (concat rs)"
proof (induction rs rule: shift_zeros.induct)
  case (1 x y ys)
  show ?case
  proof (cases "x = ''0''")
    case True
    from 1(3) have l: "last (y # ys) \<noteq> []" by simp
    then have ne: "concat (y # ys) \<noteq> []" by (intro concat_last_nonempty) simp_all
    have "concat (x # y # ys) = ''0'' @ concat (y # ys)" using True by simp
    then have "last (concat (x # y # ys)) = last (concat (y # ys))"
      by (simp only: last_append ne if_False)
    moreover have "last (concat (shift_zeros (x # y # ys))) = last (concat (y # ys))"
      using 1(1) [OF True _ l] True by simp
    ultimately show ?thesis by simp
  next
    case False
    then show ?thesis by simp
  qed
qed simp_all

lemma frac_len_popped:
  assumes "CHR ''.'' \<notin> set i" "CHR ''.'' \<notin> set f"
  shows "frac_len (concat (pop_point (map (\<lambda>d. [d]) (i @ CHR ''.'' # f)))) = length f"
proof (cases "f = []")
  case True
  then have "concat (pop_point (map (\<lambda>d. [d]) (i @ CHR ''.'' # f))) = i"
    unfolding popped_chars by simp
  with True show ?thesis
    using assms by (simp add: frac_len_none)
next
  case False
  then have "last f \<in> set f" by simp
  with assms(2) have "last f \<noteq> CHR ''.''" by metis
  with False have "concat (pop_point (map (\<lambda>d. [d]) (i @ CHR ''.'' # f))) = i @ CHR ''.'' # f"
    unfolding popped_chars by simp
  then show ?thesis
    using assms by (simp add: frac_len_split)
qed

lemma digits_with_point: "digits (fst (with_point a)) = digits a"
  by (simp add: with_point_def digits_def split: option.splits)

lemma frac_len_with_point: "frac_len (fst (with_point a)) = frac_len a"
proof (cases "CHR ''.'' \<in> set a")
  case True
  then show ?thesis by (simp add: with_point_def index_of_def)
next
  case False
  then have "frac_len (a @ ''.'') = 0" "frac_len a = 0"
    by (simp_all add: frac_len_split frac_len_none)
  with False show ?thesis by (simp add: with_point_def index_of_def)
qed

lemma string_half_prologue:
  "(if index_of CHR ''.'' a = None then a @ ''.'' else a) = fst (with_point a)"
  by (simp add: with_point_def split: option.splits)

lemma half_loop_start:
  assumes "\<forall>x\<in>set xs. is_digit x \<or> x = CHR ''.''"
  shows "\<exists>c' r. half_loop xs 0 [] = (c', map (\<lambda>d. [d]) r) \<and> (c' = 0 \<or> c' = 10) \<and>
      map (\<lambda>d. d = CHR ''.'') r = map (\<lambda>d. d = CHR ''.'') xs \<and>
      digits_val (digits xs) = 2 * digits_val (digits r) + c' div 10 \<and>
      (c' = 10) = odd_last xs \<and> (\<forall>d\<in>set r. is_digit d \<or> d = CHR ''.'')"
proof -
  have z: "(0::nat) = 0 \<or> (0::nat) = 10" by simp
  from half_loop_digits [OF assms z, of "[]"] obtain c' r where
    h: "half_loop xs 0 [] = (c', [] @ map (\<lambda>d. [d]) r)" "c' = 0 \<or> c' = 10"
      "map (\<lambda>d. d = CHR ''.'') r = map (\<lambda>d. d = CHR ''.'') xs"
      "(0 div 10) * 10 ^ length (digits xs) + digits_val (digits xs) =
        2 * digits_val (digits r) + c' div 10"
      "(c' = 10) = (if digits xs = [] then (0::nat) = 10 else odd (digit_of (last (digits xs))))"
      "\<forall>d\<in>set r. is_digit d \<or> d = CHR ''.''"
    by blast
  from h(5) have "(c' = 10) = odd_last xs"
    by (simp add: odd_last_def split: if_splits)
  with h(1-4,6) show ?thesis
    by (intro exI [of _ c'] exI [of _ r]) simp
qed

lemma string_half_wf:
  assumes "wf_decimal a"
  shows "wf_decimal (string_half a)"
    and "dec_value (string_half a) = dec_value a / 2"
    and "frac_len (string_half a) = frac_len a + (if odd_last a then 1 else 0)"
    and "odd_last a \<Longrightarrow> string_half a \<noteq> [] \<and> last (string_half a) = CHR ''5''"
proof -
  from wf_decimal_split [OF assms] obtain ip fp where
    a1: "fst (with_point a) = ip @ CHR ''.'' # fp"
    and dg: "\<forall>c\<in>set ip. is_digit c" "\<forall>c\<in>set fp. is_digit c"
    by blast
  from dg have np: "CHR ''.'' \<notin> set ip" "CHR ''.'' \<notin> set fp"
    by (simp_all add: all_digits_no_point)
  have da: "digits a = ip @ fp"
    using np digits_with_point [of a] by (simp add: a1 digits_def digits_no_point [unfolded digits_def])
  have fa: "frac_len a = length fp"
    using np frac_len_with_point [of a] by (simp add: a1 frac_len_split)
  have va: "dec_value a = of_nat (digits_val (ip @ fp)) / 10 ^ length fp"
    by (simp add: dec_value_def da fa)
  have "\<forall>x\<in>set (ip @ CHR ''.'' # fp). is_digit x \<or> x = CHR ''.''"
    using dg by auto
  from half_loop_start [OF this] obtain c' r where
    res: "half_loop (ip @ CHR ''.'' # fp) 0 [] = (c', map (\<lambda>d. [d]) r)"
    and c': "c' = 0 \<or> c' = 10"
    and pm: "map (\<lambda>d. d = CHR ''.'') r = map (\<lambda>d. d = CHR ''.'') (ip @ CHR ''.'' # fp)"
    and sum: "digits_val (digits (ip @ CHR ''.'' # fp)) = 2 * digits_val (digits r) + c' div 10"
    and odd: "(c' = 10) = odd_last (ip @ CHR ''.'' # fp)"
    and dgr: "\<forall>d\<in>set r. is_digit d \<or> d = CHR ''.''"
    by blast
  have da1: "digits (ip @ CHR ''.'' # fp) = ip @ fp"
    using da digits_with_point [of a] by (simp add: a1)
  from odd have ol: "(c' = 10) = odd_last a"
    unfolding odd_last_def da1 da .
  from point_map_split [OF pm np] obtain ri rf where
    r: "r = ri @ CHR ''.'' # rf" and lr: "length ri = length ip" "length rf = length fp"
    and npr: "CHR ''.'' \<notin> set ri" "CHR ''.'' \<notin> set rf"
    by blast
  have dr: "digits r = ri @ rf"
    using npr by (simp add: r digits_def digits_no_point [unfolded digits_def])
  have dri: "\<forall>c\<in>set ri. is_digit c" and drf: "\<forall>c\<in>set rf. is_digit c"
    using dgr npr unfolding r by (rule digits_of_split)+
  define five where "five = (if 0 < c' then ''5'' else [])"
  have "is_digit CHR ''5''" by (simp add: is_digit_def)
  with drf have drf5: "\<forall>c\<in>set (rf @ five). is_digit c"
    by (auto simp: five_def)
  have npf: "CHR ''.'' \<notin> set (rf @ five)"
    using npr by (simp add: five_def)
  have out: "string_half a =
     concat (shift_zeros (pop_point (map (\<lambda>d. [d]) (ri @ CHR ''.'' # (rf @ five)))))"
    by (simp add: string_half_def string_half_prologue a1 res r five_def)
  show "wf_decimal (string_half a)"
    unfolding out using dri drf5 by (intro wf_decimal_shift_zeros wf_decimal_popped)
  have "dec_value (string_half a) = of_nat (digits_val (ri @ rf @ five)) / 10 ^ length (rf @ five)"
    unfolding out dec_value_shift_zeros using npr(1) npf by (rule dec_value_popped)
  also have "\<dots> = dec_value a / 2"
  proof (cases "c' = 0")
    case True
    with sum have "digits_val (ip @ fp) = 2 * digits_val (ri @ rf)"
      by (simp add: da1 dr)
    with True show ?thesis
      by (simp add: five_def va lr)
  next
    case False
    with c' have c10: "c' = 10" by simp
    with sum have "digits_val (ip @ fp) = 2 * digits_val (ri @ rf) + 1"
      by (simp add: da1 dr)
    moreover have "digits_val (ri @ rf @ ''5'') = 10 * digits_val (ri @ rf) + 5"
      using digits_val_snoc [of "ri @ rf" "CHR ''5''"] by (simp add: digit_of_def)
    ultimately show ?thesis
      using c10 by (simp add: five_def va lr field_simps)
  qed
  finally show "dec_value (string_half a) = dec_value a / 2" .
  have "frac_len (string_half a) = length (rf @ five)"
    unfolding out frac_len_shift_zeros using npr(1) npf by (rule frac_len_popped)
  then show "frac_len (string_half a) = frac_len a + (if odd_last a then 1 else 0)"
    using c' ol by (auto simp: fa lr five_def)
  assume "odd_last a"
  with ol have c10: "c' = 10" by simp
  define w where "w = ri @ CHR ''.'' # (rf @ ''5'')"
  have w: "w \<noteq> []" "last w = CHR ''5''" by (simp_all add: w_def)
  have "pop_point (map (\<lambda>d. [d]) w) = map (\<lambda>d. [d]) w"
    unfolding pop_point_chars using w by simp
  then have o2: "string_half a = concat (shift_zeros (map (\<lambda>d. [d]) w))"
    using c10 by (simp add: out five_def w_def)
  have lw: "last (map (\<lambda>d. [d]) w) = [CHR ''5'']"
    using w by (simp add: last_map)
  then have "last (concat (shift_zeros (map (\<lambda>d. [d]) w))) = last (concat (map (\<lambda>d. [d]) w))"
    using w(1) by (intro last_shift_zeros) simp_all
  then have l5: "last (string_half a) = CHR ''5''"
    using w by (simp add: o2 concat_chars)
  have "concat (shift_zeros (map (\<lambda>d. [d]) w)) \<noteq> []"
  proof
    assume e: "concat (shift_zeros (map (\<lambda>d. [d]) w)) = []"
    have "frac_len (concat (shift_zeros (map (\<lambda>d. [d]) w))) = frac_len w"
      by (simp add: frac_len_shift_zeros concat_chars)
    moreover have "frac_len w = Suc (length rf)"
      using npr by (simp add: w_def frac_len_split)
    ultimately show False using e by (simp add: frac_len_Nil)
  qed
  with l5 show "string_half a \<noteq> [] \<and> last (string_half a) = CHR ''5''"
    by (simp add: o2)
qed

section \<open>Steps of the event queue\<close>

lemma queue_exec_next_eventqueue:
  "eventqueue (state_of (queue_exec_next s)) = tl (eventqueue s)"
  by (simp add: queue_exec_next_def set_timeout_def Let_def split: list.splits)


lemma queue_exec_next_timers:
  "timers (state_of (queue_exec_next s)) =
   timers s @ (if tl (eventqueue s) = [] \<or> \<not> all_return (take 1 (eventqueue s)) then []
               else [(Suc (handles s), eventqueueTimegap)])"
  by (simp add: queue_exec_next_def set_timeout_def all_return_def Let_def split: list.splits)

lemma queue_exec_next_timeout:
  "eventqueueTimeout (state_of (queue_exec_next s)) =
   (if \<not> all_return (take 1 (eventqueue s)) then eventqueueTimeout s
    else if tl (eventqueue s) = [] then None else Some (Suc (handles s)))"
  by (simp add: queue_exec_next_def set_timeout_def all_return_def Let_def split: list.splits)

lemma queue_exec_next_Normal:
  "queue_exec_next s = Normal s' \<Longrightarrow> (eventqueueTimeout s' = None) = (eventqueue s' = [])"
  by (auto simp: queue_exec_next_def set_timeout_def Let_def split: list.splits if_splits)

lemma queue_event_eventqueue:
  "eventqueue (queue_event events s) = eventqueue s @ functions_of events"
  by (simp add: queue_event_def set_timeout_def functions_of_def Let_def)


lemma queue_event_timers:
  "timers (queue_event events s) =
   timers s @ (if falsy (eventqueueTimeout s) then [(Suc (handles s), eventqueueTimegap)] else [])"
  by (simp add: queue_event_def set_timeout_def Let_def)

lemma queue_event_timeout:
  "eventqueueTimeout (queue_event events s) =
   (if falsy (eventqueueTimeout s) then Some (Suc (handles s)) else eventqueueTimeout s)"
  by (simp add: queue_event_def set_timeout_def Let_def)

text \<open>A handle stays stored whatever the operations do.\<close>

lemma stored_queue_exec_next: "stored s \<Longrightarrow> stored (state_of (queue_exec_next s))"
  by (cases "eventqueue s")
     (auto simp: stored_def queue_exec_next_timeout queue_exec_next_eventqueue
        split: option.splits)

lemma stored_queue_event: "stored s \<Longrightarrow> stored (queue_event events s)"
  by (auto simp: stored_def queue_event_timeout queue_event_eventqueue falsy_def
      split: option.splits)

lemma stored_set_timers: "stored (s\<lparr>timers := ts\<rparr>) = stored s"
  by (simp add: stored_def split: option.splits)

lemma stored_step: "stored s \<Longrightarrow> stored (step x s)"
  by (cases x)
     (simp_all add: stored_queue_exec_next stored_queue_event timeout_fires_def
        stored_set_timers)

lemma stored_run: "stored s \<Longrightarrow> stored (run steps s)"
  unfolding run_def by (induction steps arbitrary: s) (simp_all add: stored_step)

lemma stored_initial: "stored initial"
  by (simp add: stored_def initial_def)

text \<open>The stored handle stays pending as long as no operation throws.\<close>

lemma scheduled_queue_exec_next:
  "all_return (eventqueue s) \<Longrightarrow> scheduled (state_of (queue_exec_next s))"
  by (cases "eventqueue s")
     (simp_all add: scheduled_def queue_exec_next_timeout queue_exec_next_timers
        queue_exec_next_eventqueue all_return_def)

lemma scheduled_queue_event: "scheduled s \<Longrightarrow> scheduled (queue_event events s)"
  by (auto simp: scheduled_def queue_event_timeout queue_event_timers queue_event_eventqueue
      falsy_def split: option.splits)

lemma scheduled_timeout_fires:
  "scheduled s \<Longrightarrow> all_return (eventqueue s) \<Longrightarrow> scheduled (timeout_fires h s)"
  using scheduled_queue_exec_next [of "s\<lparr>timers := filter (\<lambda>t. fst t \<noteq> h) (timers s)\<rparr>"]
  by (simp add: timeout_fires_def)

lemma all_return_tl: "all_return ops \<Longrightarrow> all_return (tl ops)"
  by (cases ops) (simp_all add: all_return_def)

lemma all_return_append: "all_return (xs @ ys) = (all_return xs \<and> all_return ys)"
  by (simp add: all_return_def)

lemma eventqueue_step: "eventqueue (step x s) = tl (eventqueue s) \<or>
    eventqueue (step x s) = eventqueue s @ enqueued x"
  by (cases x) (simp_all add: queue_event_eventqueue queue_exec_next_eventqueue timeout_fires_def)

lemma all_return_step:
  "all_return (eventqueue s) \<Longrightarrow> all_return (enqueued x) \<Longrightarrow> all_return (eventqueue (step x s))"
  using eventqueue_step [of x s] by (auto simp: all_return_append all_return_tl)

lemma scheduled_step:
  "scheduled s \<Longrightarrow> all_return (eventqueue s) \<Longrightarrow> scheduled (step x s)"
  by (cases x) (simp_all add: scheduled_queue_exec_next scheduled_queue_event
      scheduled_timeout_fires)

lemma scheduled_run:
  "scheduled s \<Longrightarrow> all_return (eventqueue s) \<Longrightarrow> all_return (concat (map enqueued steps)) \<Longrightarrow>
   scheduled (run steps s) \<and> all_return (eventqueue (run steps s))"
  unfolding run_def
proof (induction steps arbitrary: s)
  case Nil
  then show ?case by simp
next
  case (Cons x steps)
  from Cons.prems(3) have e: "all_return (enqueued x)" "all_return (concat (map enqueued steps))"
    by (simp_all add: all_return_append)
  have "scheduled (step x s)" using Cons.prems(1,2) by (rule scheduled_step)
  moreover have "all_return (eventqueue (step x s))" using Cons.prems(2) e(1) by (rule all_return_step)
  ultimately show ?case using Cons.IH [of "step x s"] e(2) by simp
qed

lemma scheduled_initial: "scheduled initial"
  by (simp add: scheduled_def initial_def)




section \<open>The sum of two decimal strings\<close>

text \<open>
  C3. For well-formed decimal strings \<open>a\<close> and \<open>b\<close>, \<open>string_add\<close> returns a
  well-formed decimal string whose value is the sum of the values of \<open>a\<close> and \<open>b\<close>.
  The sum of 1.5 and 2.25 is the string 3.75, and a carry out of the most significant
  digit becomes a new leading digit: the sum of 9.5 and 0.5 is the string 10.0.
\<close>

theorem string_add_value:
  "(wf_decimal a \<longrightarrow> wf_decimal b \<longrightarrow>
      (\<exists>s. string_add a b = Inr s \<and> wf_decimal s \<and>
           dec_value s = dec_value a + dec_value b)) \<and>
   string_add ''1.5'' ''2.25'' = Inr ''3.75'' \<and>
   string_add ''9.5'' ''0.5'' = Inr ''10.0''"
proof (intro conjI impI)
  assume "wf_decimal a" "wf_decimal b"
  then show "\<exists>s. string_add a b = Inr s \<and> wf_decimal s \<and>
      dec_value s = dec_value a + dec_value b"
    by (rule string_add_wf)
next
  show "string_add ''1.5'' ''2.25'' = Inr ''3.75''" by code_simp
next
  show "string_add ''9.5'' ''0.5'' = Inr ''10.0''" by code_simp
qed

theorem string_add_value_witness:
  "wf_decimal ''0.75'' \<and> wf_decimal ''12.5'' \<and>
   string_add ''0.75'' ''12.5'' = Inr ''13.25'' \<and>
   dec_value ''13.25'' = dec_value ''0.75'' + dec_value ''12.5''"
proof -
  have w: "wf_decimal ''0.75''" "wf_decimal ''12.5''" by code_simp+
  have e: "string_add ''0.75'' ''12.5'' = Inr ''13.25''" by code_simp
  from string_add_value [of "''0.75''" "''12.5''"] w obtain s where
    "string_add ''0.75'' ''12.5'' = Inr s" "dec_value s = dec_value ''0.75'' + dec_value ''12.5''"
    by blast
  with e w show ?thesis by simp
qed

text \<open>
  C6. For well-formed decimal strings \<open>a\<close> and \<open>b\<close>, \<open>string_add a b\<close> and
  \<open>string_add b a\<close> return the same string.
\<close>

theorem string_add_commutes:
  assumes "wf_decimal a" "wf_decimal b"
  shows "\<exists>s. string_add a b = Inr s \<and> string_add b a = Inr s"
proof -
  from string_add_wf [OF assms] obtain s where "string_add a b = Inr s" by blast
  moreover have "string_add b a = string_add a b" by (rule string_add_commute_all)
  ultimately show ?thesis by simp
qed

theorem string_add_commutes_witness:
  "wf_decimal ''1.5'' \<and> wf_decimal ''2.25'' \<and>
   string_add ''1.5'' ''2.25'' = Inr ''3.75'' \<and> string_add ''2.25'' ''1.5'' = Inr ''3.75''"
proof -
  have w: "wf_decimal ''1.5''" "wf_decimal ''2.25''" by code_simp+
  have e: "string_add ''1.5'' ''2.25'' = Inr ''3.75''" by code_simp
  from string_add_commutes [OF w] obtain s where
    "string_add ''1.5'' ''2.25'' = Inr s" "string_add ''2.25'' ''1.5'' = Inr s"
    by blast
  with e w show ?thesis by simp
qed

text \<open>
  C8. \<open>string_add\<close> throws the decimal alignment error exactly when, after the
  padding, some position holds a decimal point in one operand and not in the other.
  For well-formed decimal strings there is no such position: \<open>string_add\<close> returns
  a string.
\<close>

theorem string_add_throws_only_misaligned:
  "((string_add a b = Inl Decimal_alignment_error) =
      (\<exists>i < max (length (fst (align a b))) (length (snd (align a b))).
         point_at (fst (align a b)) i \<noteq> point_at (snd (align a b)) i)) \<and>
   (wf_decimal a \<longrightarrow> wf_decimal b \<longrightarrow> (\<exists>s. string_add a b = Inr s))"
proof (intro conjI impI)
  obtain a2 b2 where ab: "align a b = (a2, b2)" by (cases "align a b")
  let ?n = "max (length a2) (length b2)"
  have "(string_add a b = Inl Decimal_alignment_error) =
        (add_loop a2 b2 ?n (Some 0) [] = Inl Decimal_alignment_error)"
    by (cases "add_loop a2 b2 ?n (Some 0) []") (auto simp: string_add_def ab)
  then show "(string_add a b = Inl Decimal_alignment_error) =
      (\<exists>i < max (length (fst (align a b))) (length (snd (align a b))).
         point_at (fst (align a b)) i \<noteq> point_at (snd (align a b)) i)"
    unfolding add_loop_throws_iff by (simp add: ab)
next
  assume "wf_decimal a" "wf_decimal b"
  from string_add_wf [OF this] show "\<exists>s. string_add a b = Inr s" by blast
qed

theorem string_add_throws_only_misaligned_witness:
  "wf_decimal ''12'' \<and> wf_decimal ''0.5'' \<and> string_add ''12'' ''0.5'' = Inr ''12.5'' \<and>
   string_add ''1.2.3'' ''1'' = Inl Decimal_alignment_error \<and>
   point_at (fst (align ''1.2.3'' ''1'')) 3 \<and> \<not> point_at (snd (align ''1.2.3'' ''1'')) 3"
proof -
  have w: "wf_decimal ''12''" "wf_decimal ''0.5''" by code_simp+
  have e: "string_add ''12'' ''0.5'' = Inr ''12.5''" by code_simp
  from string_add_throws_only_misaligned [of "''12''" "''0.5''"] w obtain s where
    "string_add ''12'' ''0.5'' = Inr s"
    by blast
  moreover have "point_at (fst (align ''1.2.3'' ''1'')) 3"
    "\<not> point_at (snd (align ''1.2.3'' ''1'')) 3"
    "max (length (fst (align ''1.2.3'' ''1''))) (length (snd (align ''1.2.3'' ''1''))) = 5"
    by code_simp+
  then have "\<exists>i < max (length (fst (align ''1.2.3'' ''1''))) (length (snd (align ''1.2.3'' ''1''))).
      point_at (fst (align ''1.2.3'' ''1'')) i \<noteq> point_at (snd (align ''1.2.3'' ''1'')) i"
    by (intro exI [of _ 3]) simp
  with string_add_throws_only_misaligned [of "''1.2.3''" "''1''"]
  have "string_add ''1.2.3'' ''1'' = Inl Decimal_alignment_error" by blast
  moreover have "point_at (fst (align ''1.2.3'' ''1'')) 3"
    "\<not> point_at (snd (align ''1.2.3'' ''1'')) 3"
    by code_simp+
  ultimately show ?thesis using e w by simp
qed

section \<open>The half of a decimal string\<close>

text \<open>
  C4. For a well-formed decimal string \<open>a\<close>, \<open>string_half\<close> returns a well-formed
  decimal string whose value is half the value of \<open>a\<close>. When the least significant
  digit of \<open>a\<close> is odd the result has one more digit after the point than \<open>a\<close>, and
  this digit is 5; otherwise it has the same number of digits after the point. The
  half of 5 is the string 2.5.
\<close>

theorem string_half_value:
  "(wf_decimal a \<longrightarrow>
      wf_decimal (string_half a) \<and>
      dec_value (string_half a) = dec_value a / 2 \<and>
      frac_len (string_half a) = frac_len a + (if odd_last a then 1 else 0) \<and>
      (odd_last a \<longrightarrow> string_half a \<noteq> [] \<and> last (string_half a) = CHR ''5'')) \<and>
   string_half ''5'' = ''2.5''"
proof (intro conjI impI)
  show "string_half ''5'' = ''2.5''" by code_simp
next
  assume "wf_decimal a"
  then show "wf_decimal (string_half a)" by (rule string_half_wf(1))
next
  assume "wf_decimal a"
  then show "dec_value (string_half a) = dec_value a / 2" by (rule string_half_wf(2))
next
  assume "wf_decimal a"
  then show "frac_len (string_half a) = frac_len a + (if odd_last a then 1 else 0)"
    by (rule string_half_wf(3))
next
  assume "wf_decimal a" "odd_last a"
  then show "string_half a \<noteq> []" using string_half_wf(4) by blast
next
  assume "wf_decimal a" "odd_last a"
  then show "last (string_half a) = CHR ''5''" using string_half_wf(4) by blast
qed

theorem string_half_value_witness:
  "wf_decimal ''7.3'' \<and> odd_last ''7.3'' \<and> string_half ''7.3'' = ''3.65'' \<and>
   dec_value ''3.65'' = dec_value ''7.3'' / 2 \<and> frac_len ''3.65'' = frac_len ''7.3'' + 1"
proof -
  have w: "wf_decimal ''7.3''" by code_simp
  have o: "odd_last ''7.3''" by code_simp
  have e: "string_half ''7.3'' = ''3.65''" by code_simp
  from string_half_value [of "''7.3''"] w o
  have "dec_value (string_half ''7.3'') = dec_value ''7.3'' / 2"
    "frac_len (string_half ''7.3'') = frac_len ''7.3'' + 1"
    by simp_all
  with w o e show ?thesis by simp
qed

section \<open>Draining the event queue\<close>




text \<open>
  C10, as stated, fails when an operation throws. After \<open>queue_event\<close> of an operation
  that throws and one that does not, the timeout fires and the first operation throws:
  the stored handle stays that of the timeout that has just run. A later \<open>queue_event\<close>
  finds a handle stored and sets no timeout, so two operations wait in the queue with
  no timeout pending. And when the only operation in the queue throws,
  \<open>queue_exec_next\<close> leaves the queue empty and does not reset the handle.
\<close>

theorem queue_stranded_after_throw:
  "eventqueue (run [Queue_event (Array [Operation ''save'' True, Operation ''notify'' False]),
                    Timeout_fires 1,
                    Queue_event (Function (Operation ''refresh'' False))] initial) =
     [Operation ''notify'' False, Operation ''refresh'' False] \<and>
   eventqueueTimeout (run [Queue_event (Array [Operation ''save'' True, Operation ''notify'' False]),
                    Timeout_fires 1,
                    Queue_event (Function (Operation ''refresh'' False))] initial) = Some 1 \<and>
   timers (run [Queue_event (Array [Operation ''save'' True, Operation ''notify'' False]),
                    Timeout_fires 1,
                    Queue_event (Function (Operation ''refresh'' False))] initial) = [] \<and>
   eventqueue (state_of (queue_exec_next
      (run [Queue_event (Function (Operation ''save'' True))] initial))) = [] \<and>
   eventqueueTimeout (state_of (queue_exec_next
      (run [Queue_event (Function (Operation ''save'' True))] initial))) = Some 1"
  by code_simp

text \<open>
  C10, amended. In every state reached from the initial state by calls of
  \<open>queue_event\<close> and \<open>queue_exec_next\<close> and by timeouts that fire, a non-empty queue
  comes with a stored, positive timeout handle. Provided none of the operations put
  into the queue throws, this handle denotes a pending timeout. A \<open>queue_exec_next\<close>
  that returns has reset the handle to null exactly when it has left the queue empty.
\<close>

theorem queue_always_scheduled:
  "(eventqueue (run steps initial) \<noteq> [] \<longrightarrow>
      (\<exists>h. eventqueueTimeout (run steps initial) = Some h \<and> 0 < h)) \<and>
   (all_return (concat (map enqueued steps)) \<longrightarrow> eventqueue (run steps initial) \<noteq> [] \<longrightarrow>
      (\<exists>h. eventqueueTimeout (run steps initial) = Some h \<and> 0 < h \<and>
           h \<in> fst ` set (timers (run steps initial)))) \<and>
   (queue_exec_next s = Normal s' \<longrightarrow>
      (eventqueueTimeout s' = None) = (eventqueue s' = []))"
proof (intro conjI impI)
  assume ne: "eventqueue (run steps initial) \<noteq> []"
  have "stored (run steps (initial :: 'a ggrc))" by (intro stored_run stored_initial)
  with ne show "\<exists>h. eventqueueTimeout (run steps initial) = Some h \<and> 0 < h"
    by (auto simp: stored_def split: option.splits)
next
  assume ret: "all_return (concat (map enqueued steps))"
    and ne: "eventqueue (run steps initial) \<noteq> []"
  have i: "all_return (eventqueue (initial :: 'a ggrc))" by (simp add: all_return_def initial_def)
  have "scheduled (run steps (initial :: 'a ggrc)) \<and>
        all_return (eventqueue (run steps (initial :: 'a ggrc)))"
    using scheduled_initial i ret by (rule scheduled_run)
  with ne show "\<exists>h. eventqueueTimeout (run steps initial) = Some h \<and> 0 < h \<and>
           h \<in> fst ` set (timers (run steps initial))"
    by (auto simp: scheduled_def split: option.splits)
next
  assume "queue_exec_next s = Normal s'"
  then show "(eventqueueTimeout s' = None) = (eventqueue s' = [])"
    by (rule queue_exec_next_Normal)
qed

theorem queue_always_scheduled_witness:
  "all_return (concat (map enqueued
      [Queue_event (Array [Operation ''save'' False, Operation ''map'' False,
         Operation ''notify'' False]), Timeout_fires 1])) \<and>
   eventqueue (run [Queue_event (Array [Operation ''save'' False, Operation ''map'' False,
         Operation ''notify'' False]), Timeout_fires 1] initial) =
     [Operation ''map'' False, Operation ''notify'' False] \<and>
   (\<exists>h. eventqueueTimeout (run [Queue_event (Array [Operation ''save'' False,
            Operation ''map'' False, Operation ''notify'' False]), Timeout_fires 1] initial)
           = Some h \<and> 0 < h \<and>
        h \<in> fst ` set (timers (run [Queue_event (Array [Operation ''save'' False,
            Operation ''map'' False, Operation ''notify'' False]), Timeout_fires 1] initial))) \<and>
   queue_exec_next (run [Queue_event (Function (Operation ''save'' False))] initial) =
     Normal (state_of (queue_exec_next
       (run [Queue_event (Function (Operation ''save'' False))] initial))) \<and>
   eventqueueTimeout (state_of (queue_exec_next
       (run [Queue_event (Function (Operation ''save'' False))] initial))) = None \<and>
   eventqueue (state_of (queue_exec_next
       (run [Queue_event (Function (Operation ''save'' False))] initial))) = []"
proof -
  let ?steps = "[Queue_event (Array [Operation ''save'' False, Operation ''map'' False,
         Operation ''notify'' False]), Timeout_fires 1]"
  let ?s = "run [Queue_event (Function (Operation ''save'' False))] (initial :: string ggrc)"
  have r: "all_return (concat (map enqueued ?steps))"
    by (simp add: all_return_def functions_of_def)
  have q: "eventqueue (run ?steps initial) = [Operation ''map'' False, Operation ''notify'' False]"
    by code_simp
  then have ne: "eventqueue (run ?steps initial) \<noteq> []" by simp
  have n: "queue_exec_next ?s = Normal (state_of (queue_exec_next ?s))"
    by code_simp
  have e: "eventqueue (state_of (queue_exec_next ?s)) = []"
    by code_simp
  from queue_always_scheduled
    [where steps = ?steps and s = ?s and s' = "state_of (queue_exec_next ?s)"] r ne n
  have "\<exists>h. eventqueueTimeout (run ?steps initial) = Some h \<and> 0 < h \<and>
           h \<in> fst ` set (timers (run ?steps initial))"
    and "(eventqueueTimeout (state_of (queue_exec_next ?s)) = None) =
         (eventqueue (state_of (queue_exec_next ?s)) = [])"
    by blast+
  with r q n e show ?thesis by simp
qed

section \<open>Comparison of decimal strings of different precision\<close>

text \<open>
  C2. \<open>string_less_than\<close> is documented to return true exactly when the number in
  \<open>a\<close> is less than the number in \<open>b\<close>. Its loop stops one position before the end
  of \<open>a\<close>, so the last digit of \<open>a\<close> is never compared, and the return statement
  after the loop answers by length alone: 0.9 is less than 0.91, and the function
  returns false for them.
\<close>

theorem string_less_than_misses_last_digit:
  "dec_value ''0.9'' < dec_value ''0.91'' \<and> string_less_than ''0.9'' ''0.91'' = False"
  by code_simp

text \<open>
  What \<open>string_less_than\<close> gets right about equal numbers: a string is not less than
  itself, and leading zeros make no difference.
\<close>

lemma less_than_loop_same: "a = b \<Longrightarrow> less_than_loop a b i = False"
proof (induction a b i rule: less_than_loop.induct)
  case (1 a b i)
  then show ?case by (subst less_than_loop.simps) auto
qed

lemma string_less_than_irreflexive: "string_less_than a a = False"
  by (simp add: string_less_than_def split_beta less_than_loop_same)

lemma dropWhile_leading_zeros:
  "dropWhile (\<lambda>c. c = CHR ''0'') (replicate k CHR ''0'' @ a) = dropWhile (\<lambda>c. c = CHR ''0'') a"
  by (induction k) simp_all

lemma string_less_than_leading_zeros:
  "string_less_than (replicate k CHR ''0'' @ a) (replicate l CHR ''0'' @ a) = False"
  by (simp add: string_less_than_def split_beta less_than_loop_same dropWhile_leading_zeros)

text \<open>
  C7. Two strings that differ only in a trailing zero after the point denote the same
  number, and \<open>string_less_than\<close> returns true for them when the longer string comes
  first: the return statement after the loop takes the longer string for the smaller.
\<close>

theorem string_less_than_trailing_zero:
  "dec_value ''0.50'' = dec_value ''0.5'' \<and> string_less_than ''0.50'' ''0.5'' = True"
  by code_simp

text \<open>
  C5. The half of 0.2 is \<open>.1\<close>, and \<open>string_less_than\<close> does not find it less than
  0.2: the only digit of \<open>.1\<close> is its last character, which the loop does not reach.
\<close>

theorem half_not_less_than:
  "string_half ''0.2'' = ''.1'' \<and> string_less_than (string_half ''0.2'') ''0.2'' = False"
  by code_simp

text \<open>
  The arithmetic itself is exact: the value of the midpoint computed by \<open>string_add\<close>
  and \<open>string_half\<close> lies strictly between the values of the two operands.
\<close>

lemma midpoint_value_between:
  assumes "wf_decimal a" "wf_decimal b" "dec_value a < dec_value b"
  shows "\<exists>s. string_add a b = Inr s \<and> dec_value a < dec_value (string_half s) \<and>
              dec_value (string_half s) < dec_value b"
proof -
  from string_add_wf [OF assms(1,2)] obtain s where
    s: "string_add a b = Inr s" "wf_decimal s" "dec_value s = dec_value a + dec_value b"
    by blast
  from string_half_wf(2) [OF s(2)] s(3)
  have "dec_value (string_half s) = (dec_value a + dec_value b) / 2" by simp
  with assms(3) have "dec_value a < dec_value (string_half s)"
    "dec_value (string_half s) < dec_value b"
    by simp_all
  with s(1) show ?thesis by blast
qed

text \<open>
  C1. 1 is less than 2 for \<open>string_less_than\<close>, and the midpoint computed by
  \<open>string_half\<close> and \<open>string_add\<close> is 1.5, but \<open>string_less_than\<close> does not find
  1 less than 1.5: with equal integer parts and every compared digit equal, it
  returns false whenever the second string is at least as long as the first.
\<close>

theorem midpoint_not_between:
  "string_less_than ''1'' ''2'' = True \<and> string_add ''1'' ''2'' = Inr ''3'' \<and>
   string_half ''3'' = ''1.5'' \<and> string_less_than ''1'' ''1.5'' = False"
  by code_simp

end
